theory Spec2Isabelle
  imports Complex_Main
begin

section \<open>JavaScript string primitives used by the ingestion code\<close>

text \<open>
  A JavaScript string is a sequence of code units and \<open>length\<close> counts code units.
  The model takes \<^typ>\<open>string\<close> (a list of \<^typ>\<open>char\<close>), one \<^typ>\<open>char\<close> per code unit, so
  the code units are those below 256. The sizes of a chunk configuration are JavaScript
  numbers, which need not be integers: they are modelled as \<^typ>\<open>rat\<close>, with exact
  arithmetic (no rounding, no \<open>NaN\<close>, no infinity). Indices of \<open>slice\<close> are integers.
\<close>

type_synonym jsstring = string

text \<open>\<open>slice(start, end)\<close> of strings and of arrays: a negative index counts from the end,
  both indices are clamped to the length, an empty range gives the empty sequence.\<close>

definition clamp_index :: "int \<Rightarrow> int \<Rightarrow> nat" where
  "clamp_index len k = nat (if k < 0 then max (len + k) 0 else min k len)"

definition slice :: "'a list \<Rightarrow> int \<Rightarrow> int \<Rightarrow> 'a list" where
  "slice s start end =
     (let len = int (length s);
          from = clamp_index len start;
          to = clamp_index len end
      in take (to - from) (drop from s))"

text \<open>\<open>slice\<close> converts each argument with \<open>ToIntegerOrInfinity\<close>, which truncates a
  number towards zero.\<close>

definition to_integer :: "rat \<Rightarrow> int" where
  "to_integer q = (if q < 0 then \<lceil>q\<rceil> else \<lfloor>q\<rfloor>)"

text \<open>\<open>s.slice(start)\<close> with the end omitted runs to the end of the string.\<close>

definition slice_from :: "jsstring \<Rightarrow> int \<Rightarrow> jsstring" where
  "slice_from s start = drop (clamp_index (int (length s)) start) s"

text \<open>\<open>String.prototype.trim\<close>: the white space and line terminator code units below 256
  are TAB, LF, VT, FF, CR, SPACE and NO-BREAK SPACE.\<close>

definition is_js_space :: "char \<Rightarrow> bool" where
  "is_js_space c = (of_char c \<in> {9, 10, 11, 12, 13, 32, 160 :: nat})"

definition trim :: "jsstring \<Rightarrow> jsstring" where
  "trim s = rev (dropWhile is_js_space (rev (dropWhile is_js_space s)))"

text \<open>\<open>s.startsWith(p)\<close> and \<open>s.includes(p)\<close>.\<close>

definition startsWith :: "jsstring \<Rightarrow> jsstring \<Rightarrow> bool" where
  "startsWith s p = (take (length p) s = p)"

fun includes_str :: "jsstring \<Rightarrow> jsstring \<Rightarrow> bool" where
  "includes_str [] p = (p = [])"
| "includes_str (c # cs) p = (startsWith (c # cs) p \<or> includes_str cs p)"

text \<open>\<open>s.split(sep)\<close> for a string separator. With a non-empty separator the string is
  scanned from the left; at each occurrence of the separator the pending piece is emitted
  and the scan resumes after the occurrence. The empty separator splits into the single
  code units.\<close>

fun split_scan :: "jsstring \<Rightarrow> jsstring \<Rightarrow> jsstring \<Rightarrow> jsstring list" where
  "split_scan sep piece [] = [rev piece]"
| "split_scan sep piece (c # cs) =
     (if sep \<noteq> [] \<and> startsWith (c # cs) sep
      then rev piece # split_scan sep [] (drop (length sep - 1) cs)
      else split_scan sep (c # piece) cs)"

definition split :: "jsstring \<Rightarrow> jsstring \<Rightarrow> jsstring list" where
  "split s sep = (if sep = [] then map (\<lambda>c. [c]) s else split_scan sep [] s)"

section \<open>chunk-processor: chunkText, recursiveSplit, forceSplit\<close>

text \<open>\<open>CONSTANTS.CHUNKING\<close> of the shared package.\<close>

definition MAX_CHUNK_SIZE :: rat where
  "MAX_CHUNK_SIZE = 1000"

definition OVERLAP :: rat where
  "OVERLAP = 200"

definition SEPARATORS :: "jsstring list" where
  "SEPARATORS = [[CHR 0x0A, CHR 0x0A], [CHR 0x0A], ''. '', '' '', '''']"

text \<open>\<open>ChunkConfig\<close>: a property that is absent (\<open>None\<close>) takes the default.\<close>

record chunk_config =
  maxChunkSize :: "rat option"
  overlap :: "rat option"
  separators :: "jsstring list option"

text \<open>\<open>TextChunk\<close> and its metadata; the optional \<open>metadata.section\<close> is \<open>chunk_section\<close>,
  which \<open>chunkText\<close> never sets.\<close>

record chunk_metadata =
  source :: jsstring
  chunkIndex :: nat
  totalChunks :: nat
  chunk_section :: "jsstring option"

record text_chunk =
  content :: jsstring
  metadata :: chunk_metadata

text \<open>
  \<open>forceSplit\<close>: \<open>for (let i = 0; i < text.length; i += maxSize) chunks.push(text.slice(i, i + maxSize))\<close>.
  The loop does not end when \<open>maxSize \<le> 0\<close> and the text is not empty, so it is a partial
  function: \<open>None\<close> stands for a call that does not return. The counter \<open>i\<close> advances by
  \<open>maxSize\<close> as a number, while \<open>slice\<close> truncates its two arguments.
\<close>

partial_function (option) forceSplit_loop ::
  "jsstring \<Rightarrow> rat \<Rightarrow> rat \<Rightarrow> jsstring list \<Rightarrow> jsstring list option" where
  "forceSplit_loop text maxSize i chunks =
     (if i < of_nat (length text)
      then forceSplit_loop text maxSize (i + maxSize)
             (chunks @ [slice text (to_integer i) (to_integer (i + maxSize))])
      else Some chunks)"

declare forceSplit_loop.simps [code]

definition forceSplit :: "jsstring \<Rightarrow> rat \<Rightarrow> jsstring list option" where
  "forceSplit text maxSize = forceSplit_loop text maxSize 0 []"

text \<open>
  The \<open>for (const part of parts)\<close> loop of \<open>recursiveSplit\<close>, on the loop state
  \<open>(result, currentChunk)\<close>. The recursive call on a part that is too large is the
  parameter \<open>rec\<close>; the empty string is the falsy \<open>currentChunk\<close>.
\<close>

fun split_parts ::
  "(jsstring \<Rightarrow> jsstring list option) \<Rightarrow> jsstring \<Rightarrow> rat \<Rightarrow> jsstring list \<Rightarrow>
   jsstring list \<times> jsstring \<Rightarrow> (jsstring list \<times> jsstring) option" where
  "split_parts rec separator maxSize [] st = Some st"
| "split_parts rec separator maxSize (part # parts) (result, currentChunk) =
     (if of_nat (length currentChunk) + of_nat (length part) + of_nat (length separator) \<le> maxSize
      then split_parts rec separator maxSize parts
             (result, currentChunk @ (if currentChunk \<noteq> [] then separator else []) @ part)
      else
        (let result1 = (if currentChunk \<noteq> [] then result @ [currentChunk] else result)
         in if of_nat (length part) > maxSize
            then (case rec part of
                    None \<Rightarrow> None
                  | Some sub \<Rightarrow> split_parts rec separator maxSize parts (result1 @ sub, []))
            else split_parts rec separator maxSize parts (result1, part)))"

text \<open>
  \<open>recursiveSplit(text, separators, maxSize)\<close>. Destructuring an empty separator list gives
  \<open>undefined\<close>, which is falsy like the empty string: both go to \<open>forceSplit\<close>. The
  recursion is on the separator list.
\<close>

primrec recursiveSplit_on :: "jsstring list \<Rightarrow> rat \<Rightarrow> jsstring \<Rightarrow> jsstring list option" where
  "recursiveSplit_on [] maxSize text =
     (if of_nat (length text) \<le> maxSize then Some [text] else forceSplit text maxSize)"
| "recursiveSplit_on (separator # remainingSeparators) maxSize text =
     (if of_nat (length text) \<le> maxSize then Some [text]
      else if separator = [] then forceSplit text maxSize
      else
        (case split_parts (recursiveSplit_on remainingSeparators maxSize) separator maxSize
                (split text separator) ([], []) of
           None \<Rightarrow> None
         | Some (result, currentChunk) \<Rightarrow>
             Some (if currentChunk \<noteq> [] then result @ [currentChunk] else result)))"

definition recursiveSplit :: "jsstring \<Rightarrow> jsstring list \<Rightarrow> rat \<Rightarrow> jsstring list option" where
  "recursiveSplit text seps maxSize = recursiveSplit_on seps maxSize text"

text \<open>The body of the loop of \<open>chunkText\<close> at index \<open>i\<close>: the chunk pushed for \<open>splits[i]\<close>.\<close>

definition chunk_at :: "jsstring list \<Rightarrow> rat \<Rightarrow> nat \<Rightarrow> text_chunk" where
  "chunk_at splits ov i =
     (let chunkContent =
            (if i > 0 \<and> ov > 0
             then slice_from (splits ! (i - 1)) (to_integer (- ov)) @ '' '' @ splits ! i
             else splits ! i)
      in \<lparr>content = trim chunkContent,
          metadata = \<lparr>source = [], chunkIndex = i, totalChunks = length splits,
                      chunk_section = None\<rparr>\<rparr>)"

text \<open>The destructuring \<open>const { maxChunkSize = ..., overlap = ..., separators = ... } = config\<close>.\<close>

definition the_maxChunkSize :: "chunk_config \<Rightarrow> rat" where
  "the_maxChunkSize config = (case maxChunkSize config of None \<Rightarrow> MAX_CHUNK_SIZE | Some m \<Rightarrow> m)"

definition the_overlap :: "chunk_config \<Rightarrow> rat" where
  "the_overlap config = (case overlap config of None \<Rightarrow> OVERLAP | Some v \<Rightarrow> v)"

definition the_separators :: "chunk_config \<Rightarrow> jsstring list" where
  "the_separators config = (case separators config of None \<Rightarrow> SEPARATORS | Some l \<Rightarrow> l)"

text \<open>\<open>chunkText(text, config)\<close>; the loop \<open>for (let i = 0; i < splits.length; i++)\<close> pushes
  \<open>chunk_at\<close> for each index in order.\<close>

definition chunkText :: "jsstring \<Rightarrow> chunk_config \<Rightarrow> text_chunk list option" where
  "chunkText text config =
     (if of_nat (length text) \<le> the_maxChunkSize config
      then Some [\<lparr>content = text,
                  metadata = \<lparr>source = [], chunkIndex = 0, totalChunks = 1,
                              chunk_section = None\<rparr>\<rparr>]
      else (case recursiveSplit text (the_separators config) (the_maxChunkSize config) of
              None \<Rightarrow> None
            | Some splits \<Rightarrow>
                Some (map (chunk_at splits (the_overlap config)) [0..<length splits])))"

section \<open>chunk-processor: extractMetadata and processScrapedPages\<close>

text \<open>\<open>String.prototype.toLowerCase\<close> on the code units below 256: the ASCII capitals and the
  Latin-1 capitals (0xC0 to 0xDE without the multiplication sign 0xD7) move up by 32.\<close>

definition toLowerCase_char :: "char \<Rightarrow> char" where
  "toLowerCase_char c =
     (let n = (of_char c :: nat)
      in if (65 \<le> n \<and> n \<le> 90) \<or> (192 \<le> n \<and> n \<le> 214) \<or> (216 \<le> n \<and> n \<le> 222)
         then char_of (n + 32) else c)"

definition toLowerCase :: "jsstring \<Rightarrow> jsstring" where
  "toLowerCase s = map toLowerCase_char s"

text \<open>\<open>ScrapedPage\<close>. Every producer of pages in the repository sets \<open>metadata.headings\<close>,
  so the list is taken as present; \<open>scrapedAt\<close> is a time stamp.\<close>

record link =
  link_url :: jsstring
  link_text :: jsstring

record page_metadata =
  description :: jsstring
  headings :: "jsstring list"
  internalLinks :: "link list"
  externalLinks :: "link list"
  scrapedAt :: nat

record scraped_page =
  page_url :: jsstring
  page_title :: jsstring
  page_content :: jsstring
  page_links :: "jsstring list"
  page_meta :: page_metadata

text \<open>The object returned by \<open>extractMetadata\<close> (its properties \<open>keywords\<close> and \<open>section\<close> are \<open>keywords_list\<close> and \<open>section_label\<close>).\<close>

record extracted_metadata =
  version :: jsstring
  framework :: jsstring
  docType :: jsstring
  keywords_list :: "jsstring list"
  section_label :: jsstring

definition extractMetadata :: "scraped_page \<Rightarrow> extracted_metadata" where
  "extractMetadata page =
     (let url = toLowerCase (page_url page);
          content = toLowerCase (page_content page);
          version = (if includes_str url ''/v3/'' \<or> includes_str url ''/3.x/''
                     then ''3.x'' else ''4.x'');
          framework =
            (if includes_str url ''astro'' \<or> includes_str content ''astro'' then ''astro''
             else if includes_str url ''vue'' \<or> includes_str content ''vue'' then ''vue''
             else if includes_str url ''nunjucks'' then ''nunjucks''
             else ''core'');
          docType =
            (if includes_str url ''/reference/'' \<or> includes_str url ''/api/'' then ''reference''
             else if includes_str url ''/tutorial/'' then ''tutorial''
             else if includes_str url ''/migration/'' then ''migration''
             else ''guide'');
          keywords = take 10 (map toLowerCase
                       (filter (\<lambda>h. length h > 0) (headings (page_meta page))));
          section = (case headings (page_meta page) of [] \<Rightarrow> [] | h # _ \<Rightarrow> h)
      in \<lparr>version = version, framework = framework, docType = docType,
          keywords_list = keywords, section_label = section\<rparr>)"

text \<open>\<open>WeaviateDocument\<close>: \<open>version\<close>, \<open>framework\<close>, \<open>keywords\<close> and \<open>metadata\<close> are optional in
  the type. The metadata bag holds \<open>section\<close>, \<open>chunkIndex\<close>, \<open>totalChunks\<close> and the spread page
  metadata.\<close>

record document_metadata =
  md_section :: jsstring
  md_chunkIndex :: nat
  md_totalChunks :: nat
  md_page :: page_metadata

record weaviate_document =
  doc_content :: jsstring
  doc_title :: jsstring
  doc_url :: jsstring
  doc_version :: "jsstring option"
  doc_framework :: "jsstring option"
  doc_docType :: jsstring
  doc_keywords :: "jsstring list option"
  doc_metadata :: "document_metadata option"

text \<open>\<open>a || b\<close> on an optional string: \<open>undefined\<close> and the empty string are falsy.\<close>

definition or_else :: "jsstring option \<Rightarrow> jsstring \<Rightarrow> jsstring" where
  "or_else a b = (case a of None \<Rightarrow> b | Some s \<Rightarrow> if s = [] then b else s)"

text \<open>The document pushed for one chunk of a page.\<close>

definition make_document ::
  "scraped_page \<Rightarrow> extracted_metadata \<Rightarrow> text_chunk \<Rightarrow> weaviate_document" where
  "make_document page md chunk =
     \<lparr>doc_content = content chunk,
      doc_title = page_title page,
      doc_url = page_url page,
      doc_version = Some (version md),
      doc_framework = Some (framework md),
      doc_docType = docType md,
      doc_keywords = Some (keywords_list md),
      doc_metadata = Some
        \<lparr>md_section = or_else (chunk_section (metadata chunk)) (section_label md),
         md_chunkIndex = chunkIndex (metadata chunk),
         md_totalChunks = totalChunks (metadata chunk),
         md_page = page_meta page\<rparr>\<rparr>"

text \<open>\<open>processScrapedPages(pages, chunkConfig)\<close>: the loop over the pages threads the
  \<open>documents\<close> array; an absent \<open>chunkConfig\<close> is the empty configuration.\<close>

definition config_or_empty :: "chunk_config option \<Rightarrow> chunk_config" where
  "config_or_empty chunkConfig =
     (case chunkConfig of
        None \<Rightarrow> \<lparr>maxChunkSize = None, overlap = None, separators = None\<rparr>
      | Some c \<Rightarrow> c)"

fun process_pages ::
  "chunk_config option \<Rightarrow> scraped_page list \<Rightarrow> weaviate_document list \<Rightarrow>
   weaviate_document list option" where
  "process_pages chunkConfig [] documents = Some documents"
| "process_pages chunkConfig (page # pages) documents =
     (let md = extractMetadata page
      in case chunkText (page_content page) (config_or_empty chunkConfig) of
           None \<Rightarrow> None
         | Some chunks \<Rightarrow>
             process_pages chunkConfig pages (documents @ map (make_document page md) chunks))"

definition processScrapedPages ::
  "scraped_page list \<Rightarrow> chunk_config option \<Rightarrow> weaviate_document list option" where
  "processScrapedPages pages chunkConfig = process_pages chunkConfig pages []"

section \<open>weaviate/client: batchImport\<close>

text \<open>The properties object that \<open>batchImport\<close> gives to the batcher for one document (the
  class name is a constant and \<open>lastUpdated\<close> is the time of the call; both are left out).\<close>

record weaviate_object =
  obj_content :: jsstring
  obj_title :: jsstring
  obj_url :: jsstring
  obj_version :: jsstring
  obj_framework :: jsstring
  obj_docType :: jsstring
  obj_keywords :: "jsstring list"
  obj_section :: jsstring

definition to_object :: "weaviate_document \<Rightarrow> weaviate_object" where
  "to_object doc =
     \<lparr>obj_content = doc_content doc,
      obj_title = doc_title doc,
      obj_url = doc_url doc,
      obj_version = or_else (doc_version doc) ''4.x'',
      obj_framework = or_else (doc_framework doc) ''core'',
      obj_docType = doc_docType doc,
      obj_keywords = (case doc_keywords doc of None \<Rightarrow> [] | Some ks \<Rightarrow> ks),
      obj_section = or_else (map_option md_section (doc_metadata doc)) []\<rparr>"

datatype import_error = ClientNotInitialized

text \<open>\<open>batchImport(documents)\<close>: \<open>getClient\<close> throws when the client was not initialised;
  otherwise every document is added to the batch in order. The result is the batch handed
  to the external \<open>batcher.do()\<close>.\<close>

definition batchImport :: "bool \<Rightarrow> weaviate_document list \<Rightarrow> import_error + weaviate_object list" where
  "batchImport initialized documents =
     (if \<not> initialized then Inl ClientNotInitialized else Inr (map to_object documents))"

section \<open>openapi-processor: the urls of the synthetic pages\<close>

text \<open>\<open>path.replace(/\\//g, '-')\<close>: every slash becomes a hyphen.\<close>

definition replace_slashes :: "jsstring \<Rightarrow> jsstring" where
  "replace_slashes path = map (\<lambda>c. if c = CHR ''/'' then CHR ''-'' else c) path"

text \<open>The \<open>url\<close> property of the pages built by \<open>createInfoPage\<close>, \<open>createOperationPage\<close> and
  \<open>createSchemaPage\<close>.\<close>

definition createInfoPage_url :: "jsstring \<Rightarrow> jsstring" where
  "createInfoPage_url src = src @ ''#info''"

definition createOperationPage_url :: "jsstring \<Rightarrow> jsstring \<Rightarrow> jsstring \<Rightarrow> jsstring" where
  "createOperationPage_url path method src =
     src @ ''#'' @ method @ ''-'' @ replace_slashes path"

definition createSchemaPage_url :: "jsstring \<Rightarrow> jsstring \<Rightarrow> jsstring" where
  "createSchemaPage_url schemaName src = src @ ''#schema-'' @ schemaName"

definition HTTP_METHODS :: "jsstring list" where
  "HTTP_METHODS = [''get'', ''post'', ''put'', ''patch'', ''delete'', ''options'', ''head'']"

text \<open>The parsed specification as far as the page urls depend on it: whether \<open>info\<close> is
  present, the entries of \<open>paths\<close> (each path with the keys of its path item) and the
  names of \<open>components.schemas\<close>, in the order of \<open>Object.entries\<close>.\<close>

record openapi_spec =
  spec_info :: bool
  spec_paths :: "(jsstring \<times> jsstring list) list option"
  spec_schemas :: "jsstring list option"

text \<open>The urls of the pages of \<open>processOpenAPISpec\<close>, in the order they are pushed; keys of
  a path item that are no HTTP method are skipped.\<close>

definition operation_urls :: "jsstring \<Rightarrow> jsstring \<times> jsstring list \<Rightarrow> jsstring list" where
  "operation_urls src entry =
     (case entry of (path, methods) \<Rightarrow>
        map (\<lambda>method. createOperationPage_url path method src)
            (filter (\<lambda>method. method \<in> set HTTP_METHODS) methods))"

definition processOpenAPISpec_urls :: "openapi_spec \<Rightarrow> jsstring \<Rightarrow> jsstring list" where
  "processOpenAPISpec_urls spec src =
     (if spec_info spec then [createInfoPage_url src] else []) @
     (case spec_paths spec of None \<Rightarrow> [] | Some entries \<Rightarrow> concat (map (operation_urls src) entries)) @
     (case spec_schemas spec of None \<Rightarrow> []
      | Some names \<Rightarrow> map (\<lambda>schemaName. createSchemaPage_url schemaName src) names)"

section \<open>playwright-scraper: PlaywrightScraper\<close>

text \<open>\<open>ScraperConfig\<close>; the constructor supplies \<open>maxDepth\<close>, \<open>maxPages\<close>, \<open>delayMs\<close> and
  \<open>respectRobotsTxt\<close> when they are absent. Only \<open>maxPages\<close> of these is read by the code.\<close>

record scraper_config =
  baseUrl :: jsstring
  sitemapUrl :: "jsstring option"
  maxDepth :: "int option"
  maxPages :: "int option"
  allowedDomains :: "jsstring list option"
  excludePatterns :: "jsstring list option"
  delayMs :: "int option"
  respectRobotsTxt :: "bool option"

definition the_maxPages :: "scraper_config \<Rightarrow> int" where
  "the_maxPages cfg = (case maxPages cfg of None \<Rightarrow> 500 | Some n \<Rightarrow> n)"

text \<open>The state of a scraper object: its configuration, \<open>this.visited\<close> and
  \<open>this.results\<close>.\<close>

record scraper =
  config :: scraper_config
  visited :: "jsstring set"
  results :: "scraped_page list"

definition PlaywrightScraper :: "scraper_config \<Rightarrow> scraper" where
  "PlaywrightScraper cfg = \<lparr>config = cfg, visited = {}, results = []\<rparr>"

text \<open>
  The world outside the scraper. \<open>fetch\<close> either rejects or resolves to a response with a
  status and a body, whatever the status. Navigating the browser page to a url either
  throws (navigation failure, timeout, an evaluation error) or gives a document, of which
  the scraper reads the title, the first element matching a selector, the anchors of the
  link region, the meta description and the headings. \<open>hostname\<close> is \<open>new URL(url).hostname\<close>,
  absent for an invalid url, and \<open>turndown\<close> converts markup to markdown. The browser is
  taken to launch.
\<close>

datatype fetch_result = Rejected | Response nat jsstring

record document =
  dom_title :: jsstring
  dom_query :: "jsstring \<Rightarrow> jsstring option"
  dom_anchors :: "link list"
  dom_description :: jsstring
  dom_headings :: "jsstring list"

datatype goto_result = Throws | Loaded document

record environment =
  fetch :: "jsstring \<Rightarrow> fetch_result"
  hostname :: "jsstring \<Rightarrow> jsstring option"
  goto :: "jsstring \<Rightarrow> goto_result"
  turndown :: "jsstring \<Rightarrow> jsstring"
  now :: nat

definition endsWith :: "jsstring \<Rightarrow> jsstring \<Rightarrow> bool" where
  "endsWith s p = (length p \<le> length s \<and> drop (length s - length p) s = p)"

text \<open>\<open>shouldScrape(url)\<close>: an invalid url throws inside the \<open>try\<close> and gives \<open>false\<close>.\<close>

definition shouldScrape :: "environment \<Rightarrow> scraper \<Rightarrow> jsstring \<Rightarrow> bool" where
  "shouldScrape env st url =
     (case hostname env url of
        None \<Rightarrow> False
      | Some host \<Rightarrow>
          if url \<in> visited st then False
          else if (case allowedDomains (config st) of
                     None \<Rightarrow> False
                   | Some domains \<Rightarrow>
                       length domains > 0 \<and>
                       \<not> list_ex (\<lambda>domain. host = domain \<or> endsWith host (''.'' @ domain)) domains)
          then False
          else if (case excludePatterns (config st) of
                     None \<Rightarrow> False
                   | Some patterns \<Rightarrow> list_ex (\<lambda>pattern. includes_str url pattern) patterns)
          then False
          else True)"

text \<open>The content of a page: the markdown of the first selector that matches, the empty
  string when none does.\<close>

definition contentSelectors :: "jsstring list" where
  "contentSelectors = [''.vp-doc'', ''.VPDoc'', ''main'', ''article'']"

fun extract_content ::
  "(jsstring \<Rightarrow> jsstring) \<Rightarrow> (jsstring \<Rightarrow> jsstring option) \<Rightarrow> jsstring list \<Rightarrow> jsstring" where
  "extract_content td query [] = []"
| "extract_content td query (selector # rest) =
     (case query selector of
        Some html \<Rightarrow> td html
      | None \<Rightarrow> extract_content td query rest)"

definition is_internal :: "link \<Rightarrow> bool" where
  "is_internal l =
     (includes_str (link_url l) ''docs.apostrophecms.org'' \<or>
      includes_str (link_url l) ''apostrophecms.com/docs'')"

text \<open>\<open>scrapePage(page, url)\<close>: the result (\<open>None\<close> is \<open>null\<close>) and the scraper afterwards.
  Everything that throws inside the \<open>try\<close> is caught and gives \<open>null\<close>.\<close>

definition scrapePage :: "environment \<Rightarrow> scraper \<Rightarrow> jsstring \<Rightarrow> scraped_page option \<times> scraper" where
  "scrapePage env st url =
     (case goto env url of
        Throws \<Rightarrow> (None, st)
      | Loaded dm \<Rightarrow>
          (let content = extract_content (turndown env) (dom_query dm) contentSelectors;
               anchors = filter (\<lambda>l. link_url l \<noteq> [] \<and> \<not> startsWith (link_url l) ''#'')
                           (case (case dom_query dm ''.vp-doc'' of
                                    Some r \<Rightarrow> Some r | None \<Rightarrow> dom_query dm ''main'') of
                              None \<Rightarrow> [] | Some _ \<Rightarrow> dom_anchors dm);
               internal = filter is_internal anchors;
               external = filter (\<lambda>l. \<not> is_internal l) anchors
           in (Some \<lparr>page_url = url,
                      page_title = dom_title dm,
                      page_content = content,
                      page_links = map link_url internal,
                      page_meta = \<lparr>description = dom_description dm,
                                   headings = dom_headings dm,
                                   internalLinks = internal,
                                   externalLinks = external,
                                   scrapedAt = now env\<rparr>\<rparr>,
               st\<lparr>visited := insert url (visited st)\<rparr>)))"

text \<open>
  \<open>fetchSitemap\<close> collects the first groups of the matches of \<open>/<loc>(.*?)<\\/loc>/g\<close> in
  the body. \<open>lazy_capture\<close> matches \<open>(.*?)<\\/loc>\<close> at the start of a string: the group
  is the shortest run without a line terminator (LF and CR below 256) that the closing tag
  follows. After a match the search resumes behind it; where no match starts, it moves on
  by one code unit.
\<close>

definition is_line_terminator :: "char \<Rightarrow> bool" where
  "is_line_terminator c = (c = CHR 0x0A \<or> c = CHR 0x0D)"

fun lazy_capture :: "jsstring \<Rightarrow> jsstring \<Rightarrow> jsstring option" where
  "lazy_capture grp [] = None"
| "lazy_capture grp (c # cs) =
     (if startsWith (c # cs) ''</loc>'' then Some (rev grp)
      else if is_line_terminator c then None
      else lazy_capture (c # grp) cs)"

fun extract_locs :: "jsstring \<Rightarrow> jsstring list" where
  "extract_locs [] = []"
| "extract_locs (c # cs) =
     (if startsWith (c # cs) ''<loc>''
      then (case lazy_capture [] (drop 4 cs) of
              Some grp \<Rightarrow> grp # extract_locs (drop (10 + length grp) cs)
            | None \<Rightarrow> extract_locs cs)
      else extract_locs cs)"

datatype scrape_error = SitemapFetchFailed

text \<open>\<open>fetchSitemap(sitemapUrl)\<close>: a rejected \<open>fetch\<close> propagates; the status of a response is
  not looked at.\<close>

definition fetchSitemap :: "environment \<Rightarrow> jsstring \<Rightarrow> scrape_error + jsstring list" where
  "fetchSitemap env url =
     (case fetch env url of
        Rejected \<Rightarrow> Inl SitemapFetchFailed
      | Response status xml \<Rightarrow> Inr (extract_locs xml))"

text \<open>The loop \<open>for (const url of urls)\<close> of \<open>scrape\<close>: a result that is not \<open>null\<close> is pushed
  to \<open>this.results\<close>. The delay after each page changes no state.\<close>

fun scrape_loop :: "environment \<Rightarrow> jsstring list \<Rightarrow> scraper \<Rightarrow> scraper" where
  "scrape_loop env [] st = st"
| "scrape_loop env (url # urls) st =
     (case scrapePage env st url of
        (None, st1) \<Rightarrow> scrape_loop env urls st1
      | (Some result, st1) \<Rightarrow>
          scrape_loop env urls (st1\<lparr>results := results st1 @ [result]\<rparr>))"

text \<open>\<open>scrape()\<close>: the returned value (an error for a rejected promise, else
  \<open>this.results\<close>) and the scraper afterwards. The sitemap is fetched from
  \<open>this.config.sitemapUrl || `${this.config.baseUrl}/sitemap.xml`\<close>.\<close>

definition sitemap_location :: "scraper_config \<Rightarrow> jsstring" where
  "sitemap_location cfg = or_else (sitemapUrl cfg) (baseUrl cfg @ ''/sitemap.xml'')"

definition scrape :: "environment \<Rightarrow> scraper \<Rightarrow> (scrape_error + scraped_page list) \<times> scraper" where
  "scrape env st =
     (let sitemap = sitemap_location (config st)
      in case fetchSitemap env sitemap of
           Inl e \<Rightarrow> (Inl e, st)
         | Inr urls \<Rightarrow>
             (let urls1 = filter (shouldScrape env st) urls;
                  urls2 = (if int (length urls1) > the_maxPages (config st)
                           then slice urls1 0 (the_maxPages (config st)) else urls1);
                  st1 = scrape_loop env urls2 st
              in (Inr (results st1), st1)))"

section \<open>The framework rules in the words of the specification\<close>

text \<open>\<open>occurs_in p s\<close>: the string \<open>p\<close> is a substring of \<open>s\<close>, code unit for code unit.\<close>

definition occurs_in :: "jsstring \<Rightarrow> jsstring \<Rightarrow> bool" where
  "occurs_in p s = (\<exists>u v. s = u @ p @ v)"

text \<open>The first matching rule in the fixed order astro, vue, nunjucks, with the default
  core, on a url \<open>u\<close> and a content \<open>c\<close>.\<close>

definition framework_by_rules :: "jsstring \<Rightarrow> jsstring \<Rightarrow> jsstring" where
  "framework_by_rules u c =
     (if occurs_in ''astro'' u \<or> occurs_in ''astro'' c then ''astro''
      else if occurs_in ''vue'' u \<or> occurs_in ''vue'' c then ''vue''
      else if occurs_in ''nunjucks'' u then ''nunjucks''
      else ''core'')"

section \<open>The other classifier rules in the words of the specification\<close>

text \<open>Version, document type and keywords as the specification words them, on a url \<open>u\<close>
  and a heading list \<open>hs\<close>.\<close>

definition version_by_rules :: "jsstring \<Rightarrow> jsstring" where
  "version_by_rules u =
     (if occurs_in ''/v3/'' u \<or> occurs_in ''/3.x/'' u then ''3.x'' else ''4.x'')"

definition docType_by_rules :: "jsstring \<Rightarrow> jsstring" where
  "docType_by_rules u =
     (if occurs_in ''/reference/'' u \<or> occurs_in ''/api/'' u then ''reference''
      else if occurs_in ''/tutorial/'' u then ''tutorial''
      else if occurs_in ''/migration/'' u then ''migration''
      else ''guide'')"

definition keywords_by_rules :: "jsstring list \<Rightarrow> jsstring list" where
  "keywords_by_rules hs = take 10 (map toLowerCase (filter (\<lambda>h. h \<noteq> []) hs))"

section \<open>Example inputs for the scraper\<close>

text \<open>A configuration for the documentation site, a rendered document whose \<open>main\<close> element
  holds the content, and an environment built from the response to the sitemap request
  and the outcome of navigating to each url.\<close>

definition example_config :: scraper_config where
  "example_config =
     \<lparr>baseUrl = ''https://docs.apostrophecms.org'', sitemapUrl = None, maxDepth = None,
      maxPages = None, allowedDomains = Some [''docs.apostrophecms.org''],
      excludePatterns = Some [''/search''], delayMs = None, respectRobotsTxt = None\<rparr>"

definition example_document :: document where
  "example_document =
     \<lparr>dom_title = ''Guide'',
      dom_query = (\<lambda>selector. if selector = ''main'' then Some ''Hello'' else None),
      dom_anchors = [], dom_description = [], dom_headings = [''Guide'']\<rparr>"

definition example_env :: "fetch_result \<Rightarrow> (jsstring \<Rightarrow> goto_result) \<Rightarrow> environment" where
  "example_env response navigate =
     \<lparr>fetch = (\<lambda>url. response),
      hostname = (\<lambda>url. Some ''docs.apostrophecms.org''),
      goto = navigate,
      turndown = (\<lambda>html. html),
      now = 0\<rparr>"

text \<open>Navigation outcomes by url: one page that fails to load, one that loads without any
  of the content selectors matching, and the example document for every other url.\<close>

definition example_navigate :: "jsstring \<Rightarrow> goto_result" where
  "example_navigate url =
     (if url = ''https://docs.apostrophecms.org/guide/broken.html'' then Throws
      else if url = ''https://docs.apostrophecms.org/guide/bare.html''
      then Loaded (example_document\<lparr>dom_query := (\<lambda>selector. None)\<rparr>)
      else Loaded example_document)"

text \<open>A sitemap that lists one location twice.\<close>

definition sitemap_twice :: jsstring where
  "sitemap_twice =
     ''<urlset><url><loc>https://docs.apostrophecms.org/guide/a.html</loc></url>'' @
     ''<url><loc>https://docs.apostrophecms.org/guide/a.html</loc></url></urlset>''"

section \<open>Facts about the string primitives\<close>

lemma length_trim_le: "length (trim s) \<le> length s"
proof -
  have "length (dropWhile is_js_space (rev (dropWhile is_js_space s)))
          \<le> length (rev (dropWhile is_js_space s))"
    by (rule length_dropWhile_le)
  also have "\<dots> \<le> length s"
    by (simp add: length_dropWhile_le)
  finally show ?thesis by (simp add: trim_def)
qed

lemma trim_id:
  assumes "s \<noteq> []" "\<not> is_js_space (hd s)" "\<not> is_js_space (last s)"
  shows "trim s = s"
proof -
  have dw_front: "dropWhile is_js_space s = s"
    using assms(1,2) by (cases s) simp_all
  have "rev s \<noteq> []" "\<not> is_js_space (hd (rev s))"
    using assms(1,3) by (simp_all add: hd_rev)
  then have dw_rear: "dropWhile is_js_space (rev s) = rev s"
    by (cases "rev s") simp_all
  show ?thesis by (simp add: trim_def dw_front dw_rear)
qed

lemma to_integer_of_int [simp]: "to_integer (of_int k) = k"
  by (simp add: to_integer_def)

lemma to_integer_minus_of_int [simp]: "to_integer (- of_int k) = - k"
proof -
  have "to_integer (of_int (- k)) = - k" by (rule to_integer_of_int)
  then show ?thesis by (simp only: of_int_minus)
qed

lemma to_integer_add_of_int:
  assumes "0 \<le> q" "0 \<le> k"
  shows "to_integer (q + of_int k) = to_integer q + k"
proof -
  have "0 \<le> q + of_int k" using assms by simp
  then show ?thesis using assms(1) by (simp add: to_integer_def)
qed

lemma to_integer_nonneg: "0 \<le> q \<Longrightarrow> 0 \<le> to_integer q"
  by (simp add: to_integer_def)

lemma length_slice_le:
  assumes "0 \<le> i" "0 < k"
  shows "length (slice s i (i + k)) \<le> nat k"
  using assms by (auto simp: slice_def clamp_index_def Let_def)

lemma length_slice_from_le:
  assumes "0 < k"
  shows "length (slice_from s (- k)) \<le> nat k"
  using assms by (auto simp: slice_from_def clamp_index_def max_def)

section \<open>forceSplit: when it returns and what it returns\<close>

text \<open>For a positive \<open>maxSize\<close> the loop ends: the number of windows still to cut goes down
  by one in each round. A property of all windows and of the chunks collected so far
  holds for the result.\<close>

lemma forceSplit_loop_total:
  assumes m: "0 < m"
    and window: "\<And>j. 0 \<le> j \<Longrightarrow> P (slice t (to_integer j) (to_integer (j + m)))"
    and "0 \<le> i" "\<forall>s\<in>set acc. P s"
  shows "\<exists>r. forceSplit_loop t m i acc = Some r \<and> (\<forall>s\<in>set r. P s)"
  using assms(3,4)
proof (induction "nat \<lceil>(of_nat (length t) - i) / m\<rceil>" arbitrary: i acc rule: less_induct)
  case less
  show ?case
  proof (cases "i < of_nat (length t)")
    case True
    let ?x = "(of_nat (length t) - i) / m"
    have step: "(of_nat (length t) - (i + m)) / m = ?x - 1"
      using m by (simp add: field_simps)
    have "0 < ?x" using True m by simp
    then have "0 < \<lceil>?x\<rceil>" by simp
    then have dec: "nat \<lceil>(of_nat (length t) - (i + m)) / m\<rceil> < nat \<lceil>?x\<rceil>"
      unfolding step by simp
    have acc': "\<forall>s\<in>set (acc @ [slice t (to_integer i) (to_integer (i + m))]). P s"
      using less.prems window [OF less.prems(1)] by simp
    have "0 \<le> i + m" using less.prems(1) m by simp
    from less.hyps [OF dec this acc'] show ?thesis
      using True by (subst forceSplit_loop.simps) simp
  next
    case False
    then show ?thesis
      using less.prems by (subst forceSplit_loop.simps) simp
  qed
qed

lemma forceSplit_returns:
  "0 < m \<Longrightarrow> \<exists>r. forceSplit t m = Some r"
  using forceSplit_loop_total [of m "\<lambda>s. True" t 0 "[]"] by (auto simp: forceSplit_def)

lemma forceSplit_bounded:
  assumes "0 < k"
  shows "\<exists>r. forceSplit t (of_int k) = Some r \<and> (\<forall>s\<in>set r. length s \<le> nat k)"
proof -
  have "length (slice t (to_integer j) (to_integer (j + of_int k))) \<le> nat k" if "0 \<le> j" for j :: rat
    using that assms length_slice_le [of "to_integer j" k t]
    by (simp add: to_integer_add_of_int to_integer_nonneg)
  with forceSplit_loop_total [of "of_int k" "\<lambda>s. length s \<le> nat k" t 0 "[]"] assms
  show ?thesis by (simp add: forceSplit_def)
qed

lemma forceSplit_loop_stuck:
  assumes "forceSplit_loop t m i acc = Some r"
  shows "\<not> (m \<le> 0 \<and> i < of_nat (length t))"
proof (rule forceSplit_loop.raw_induct
    [where P = "\<lambda>t m i acc r. \<not> (m \<le> 0 \<and> i < of_nat (length t))", OF _ assms])
  fix f :: "jsstring \<Rightarrow> rat \<Rightarrow> rat \<Rightarrow> jsstring list \<Rightarrow> jsstring list option"
  fix t :: jsstring and m i :: rat and acc r :: "jsstring list"
  assume IH: "\<And>t m i acc r. f t m i acc = Some r \<Longrightarrow> \<not> (m \<le> 0 \<and> i < of_nat (length t))"
  assume body: "(if i < of_nat (length t)
                 then f t m (i + m) (acc @ [slice t (to_integer i) (to_integer (i + m))])
                 else Some acc) = Some r"
  show "\<not> (m \<le> 0 \<and> i < of_nat (length t))"
  proof
    assume a: "m \<le> 0 \<and> i < of_nat (length t)"
    then have "f t m (i + m) (acc @ [slice t (to_integer i) (to_integer (i + m))]) = Some r"
      using body by simp
    from IH [OF this] a show False by simp
  qed
qed

lemma forceSplit_diverges:
  "m \<le> 0 \<Longrightarrow> t \<noteq> [] \<Longrightarrow> forceSplit t m = None"
  using forceSplit_loop_stuck [of t m 0 "[]"]
  by (cases "forceSplit t m") (auto simp: forceSplit_def)

section \<open>recursiveSplit returns, and its segments inherit a property of the windows\<close>

text \<open>\<open>P\<close> is a property of segments that the empty string and every string within
  \<open>maxSize\<close> have.\<close>

lemma split_parts_total:
  assumes rec: "\<And>p. \<exists>r. rec p = Some r \<and> (\<forall>s\<in>set r. P s)"
    and short: "\<And>s. of_nat (length s) \<le> m \<Longrightarrow> P s"
    and empty: "P []"
  shows "P cur \<Longrightarrow> \<forall>s\<in>set res. P s \<Longrightarrow>
    \<exists>res' cur'. split_parts rec sep m parts (res, cur) = Some (res', cur') \<and>
       P cur' \<and> (\<forall>s\<in>set res'. P s)"
proof (induction parts arbitrary: res cur)
  case Nil
  then show ?case by simp
next
  case (Cons part parts)
  show ?case
  proof (cases "of_nat (length cur) + of_nat (length part) + of_nat (length sep) \<le> m")
    case True
    have "(of_nat (length (cur @ (if cur \<noteq> [] then sep else []) @ part)) :: rat)
            \<le> of_nat (length cur) + of_nat (length part) + of_nat (length sep)"
      by simp
    with True have "of_nat (length (cur @ (if cur \<noteq> [] then sep else []) @ part)) \<le> m"
      by linarith
    then have "P (cur @ (if cur \<noteq> [] then sep else []) @ part)"
      by (rule short)
    from Cons.IH [OF this Cons.prems(2)] show ?thesis
      using True by simp
  next
    case False
    define res1 where "res1 = (if cur \<noteq> [] then res @ [cur] else res)"
    have res1: "\<forall>s\<in>set res1. P s"
      using Cons.prems by (simp add: res1_def)
    show ?thesis
    proof (cases "of_nat (length part) > m")
      case True
      from rec obtain sub where sub: "rec part = Some sub" "\<forall>s\<in>set sub. P s"
        by blast
      have all: "\<forall>s\<in>set (res1 @ sub). P s"
        using res1 sub(2) by auto
      from Cons.IH [OF empty all] show ?thesis
        using False True sub(1) by (simp add: res1_def Let_def)
    next
      case part: False
      then have "P part" using short [of part] by simp
      from Cons.IH [OF this res1] show ?thesis
        using False part by (simp add: res1_def Let_def)
    qed
  qed
qed

lemma recursiveSplit_on_total:
  assumes m: "0 < m"
    and force: "\<And>t. \<exists>r. forceSplit t m = Some r \<and> (\<forall>s\<in>set r. P s)"
    and short: "\<And>s. of_nat (length s) \<le> m \<Longrightarrow> P s"
  shows "\<exists>r. recursiveSplit_on seps m t = Some r \<and> (\<forall>s\<in>set r. P s)"
proof (induction seps arbitrary: t)
  case Nil
  then show ?case using force [of t] short [of t] by simp
next
  case (Cons separator remaining)
  show ?case
  proof (cases "of_nat (length t) \<le> m \<or> separator = []")
    case True
    then show ?thesis using force [of t] short [of t] by auto
  next
    case False
    have e: "P []" "\<forall>s\<in>set ([]::jsstring list). P s"
      using m short [of "[]"] by simp_all
    from split_parts_total [of "recursiveSplit_on remaining m" P m "[]" "[]" separator
        "split t separator", OF Cons.IH short e(1) e]
    obtain res' cur' where
      r: "split_parts (recursiveSplit_on remaining m) separator m (split t separator) ([], [])
            = Some (res', cur')"
         "P cur'" "\<forall>s\<in>set res'. P s"
      by blast
    then show ?thesis using False by simp
  qed
qed

lemma recursiveSplit_on_returns:
  assumes "0 < m"
  shows "\<exists>r. recursiveSplit_on seps m t = Some r"
  using recursiveSplit_on_total [OF assms, of "\<lambda>s. True" seps t] forceSplit_returns [OF assms]
  by auto

lemma recursiveSplit_on_bounded:
  assumes "0 < k"
  shows "\<exists>r. recursiveSplit_on seps (of_int k) t = Some r \<and> (\<forall>s\<in>set r. length s \<le> nat k)"
proof (rule recursiveSplit_on_total)
  show "0 < (of_int k :: rat)" using assms by simp
  show "\<exists>r. forceSplit t (of_int k) = Some r \<and> (\<forall>s\<in>set r. length s \<le> nat k)" for t
    by (rule forceSplit_bounded [OF assms])
  show "length s \<le> nat k" if "of_nat (length s) \<le> (of_int k :: rat)" for s :: jsstring
  proof -
    from that have "(of_int (int (length s)) :: rat) \<le> of_int k" by simp
    then have "int (length s) \<le> k" by (simp only: of_int_le_iff)
    then show ?thesis by simp
  qed
qed

section \<open>chunkText: the two paths\<close>

lemma chunk_at_meta:
  "chunkIndex (metadata (chunk_at splits ov i)) = i"
  "totalChunks (metadata (chunk_at splits ov i)) = length splits"
  by (simp_all add: chunk_at_def Let_def)

lemma chunk_at_length:
  assumes "i < length splits" "\<forall>s\<in>set splits. length s \<le> nat k" "0 \<le> v"
  shows "length (content (chunk_at splits (of_int v) i)) \<le> nat k + nat v + 1"
proof -
  have cur: "length (splits ! i) \<le> nat k"
    using assms(1,2) by simp
  show ?thesis
  proof (cases "i > 0 \<and> v > 0")
    case True
    have "length (trim (slice_from (splits ! (i - 1)) (- v) @ '' '' @ splits ! i))
            \<le> length (slice_from (splits ! (i - 1)) (- v) @ '' '' @ splits ! i)"
      by (rule length_trim_le)
    also have "\<dots> \<le> nat v + 1 + nat k"
      using length_slice_from_le [of v "splits ! (i - 1)"] True cur by simp
    finally show ?thesis using True by (simp add: chunk_at_def)
  next
    case False
    have "length (trim (splits ! i)) \<le> length (splits ! i)"
      by (rule length_trim_le)
    with cur False show ?thesis by (auto simp: chunk_at_def)
  qed
qed

lemma chunk_at_length_first:
  assumes "0 < length splits" "\<forall>s\<in>set splits. length s \<le> nat k"
  shows "length (content (chunk_at splits ov 0)) \<le> nat k"
proof -
  have "length (trim (splits ! 0)) \<le> length (splits ! 0)"
    by (rule length_trim_le)
  moreover have "length (splits ! 0) \<le> nat k"
    using assms by simp
  ultimately show ?thesis by (simp add: chunk_at_def)
qed

lemma chunkText_short:
  assumes "of_nat (length t) \<le> the_maxChunkSize cfg"
  shows "chunkText t cfg =
     Some [\<lparr>content = t, metadata = \<lparr>source = [], chunkIndex = 0, totalChunks = 1,
                                      chunk_section = None\<rparr>\<rparr>]"
  using assms by (simp add: chunkText_def)

lemma chunkText_long:
  assumes "\<not> of_nat (length t) \<le> the_maxChunkSize cfg"
    and "recursiveSplit t (the_separators cfg) (the_maxChunkSize cfg) = Some splits"
  shows "chunkText t cfg = Some (map (chunk_at splits (the_overlap cfg)) [0..<length splits])"
  using assms by (simp add: chunkText_def)

lemma chunkText_cases:
  assumes "chunkText t cfg = Some chunks"
  shows "chunks = [\<lparr>content = t, metadata = \<lparr>source = [], chunkIndex = 0, totalChunks = 1,
                                             chunk_section = None\<rparr>\<rparr>]
         \<or> (\<exists>splits. chunks = map (chunk_at splits (the_overlap cfg)) [0..<length splits])"
  using assms by (auto simp: chunkText_def split: if_splits option.splits)

lemma chunkText_returns:
  assumes "of_nat (length t) \<le> the_maxChunkSize cfg \<or> 1 \<le> the_maxChunkSize cfg"
  shows "\<exists>chunks. chunkText t cfg = Some chunks"
proof (cases "of_nat (length t) \<le> the_maxChunkSize cfg")
  case True
  then show ?thesis by (simp add: chunkText_short)
next
  case False
  with assms have "0 < the_maxChunkSize cfg" by simp
  from recursiveSplit_on_returns [OF this, of "the_separators cfg" t]
  obtain splits where "recursiveSplit t (the_separators cfg) (the_maxChunkSize cfg) = Some splits"
    by (auto simp: recursiveSplit_def)
  from chunkText_long [OF False this] show ?thesis by blast
qed

section \<open>The chunker on a text without separators\<close>

lemma split_scan_replicate:
  assumes "sep \<noteq> []" "hd sep \<noteq> c"
  shows "split_scan sep piece (replicate n c) = [rev piece @ replicate n c]"
proof (induction n arbitrary: piece)
  case 0
  then show ?case by simp
next
  case (Suc n)
  have "\<not> startsWith (c # replicate n c) sep"
    using assms by (cases sep) (auto simp: startsWith_def)
  then show ?case
    using Suc.IH [of "c # piece"] by (simp add: replicate_app_Cons_same)
qed

lemma split_replicate:
  assumes "sep \<noteq> []" "hd sep \<noteq> c"
  shows "split (replicate n c) sep = [replicate n c]"
  using assms split_scan_replicate [OF assms, of "[]" n] by (simp add: split_def)

lemma recursiveSplit_on_skip:
  assumes "sep \<noteq> []" "hd sep \<noteq> c" "m < of_nat n"
  shows "recursiveSplit_on (sep # rest) m (replicate n c) = recursiveSplit_on rest m (replicate n c)"
  using assms
  by (cases "recursiveSplit_on rest m (replicate n c)") (simp_all add: split_replicate)

lemma forceSplit_2500:
  "forceSplit (replicate 2500 c) 1000 = Some [replicate 1000 c, replicate 1000 c, replicate 500 c]"
proof -
  have s0: "slice (replicate 2500 c) (to_integer 0) (to_integer 1000) = replicate 1000 c"
    and s1: "slice (replicate 2500 c) (to_integer 1000) (to_integer 2000) = replicate 1000 c"
    and s2: "slice (replicate 2500 c) (to_integer 2000) (to_integer 3000) = replicate 500 c"
    by (simp_all add: slice_def clamp_index_def to_integer_def)
  have "forceSplit_loop (replicate 2500 c) 1000 3000 [replicate 1000 c, replicate 1000 c, replicate 500 c]
          = Some [replicate 1000 c, replicate 1000 c, replicate 500 c]"
    by (subst forceSplit_loop.simps) simp
  then have "forceSplit_loop (replicate 2500 c) 1000 2000 [replicate 1000 c, replicate 1000 c]
          = Some [replicate 1000 c, replicate 1000 c, replicate 500 c]"
    by (subst forceSplit_loop.simps) (simp add: s2)
  then have "forceSplit_loop (replicate 2500 c) 1000 1000 [replicate 1000 c]
          = Some [replicate 1000 c, replicate 1000 c, replicate 500 c]"
    by (subst forceSplit_loop.simps) (simp add: s1)
  then have "forceSplit_loop (replicate 2500 c) 1000 0 []
          = Some [replicate 1000 c, replicate 1000 c, replicate 500 c]"
    by (subst forceSplit_loop.simps) (simp add: s0)
  then show ?thesis by (simp add: forceSplit_def)
qed

lemma recursiveSplit_2500_A:
  "recursiveSplit (replicate 2500 CHR ''A'') SEPARATORS 1000 =
     Some [replicate 1000 CHR ''A'', replicate 1000 CHR ''A'', replicate 500 CHR ''A'']"
proof -
  have skip: "recursiveSplit_on (sep # rest) 1000 (replicate 2500 CHR ''A'') =
                recursiveSplit_on rest 1000 (replicate 2500 CHR ''A'')"
    if "sep \<noteq> []" "hd sep \<noteq> CHR ''A''" for sep rest
    using that by (intro recursiveSplit_on_skip) simp_all
  have "recursiveSplit_on SEPARATORS 1000 (replicate 2500 CHR ''A'') =
          recursiveSplit_on [''''] 1000 (replicate 2500 CHR ''A'')"
    unfolding SEPARATORS_def
    by (simp add: skip del: recursiveSplit_on.simps)
  also have "\<dots> = Some [replicate 1000 CHR ''A'', replicate 1000 CHR ''A'', replicate 500 CHR ''A'']"
    by (simp add: forceSplit_2500)
  finally show ?thesis by (simp add: recursiveSplit_def)
qed

lemma trim_A_block:
  "trim (replicate (Suc n) CHR ''A'' @ s @ replicate (Suc k) CHR ''A'') =
     replicate (Suc n) CHR ''A'' @ s @ replicate (Suc k) CHR ''A''"
  by (rule trim_id) (simp_all add: is_js_space_def)

lemma trim_A: "trim (replicate (Suc n) CHR ''A'') = replicate (Suc n) CHR ''A''"
  by (rule trim_id) (simp_all add: is_js_space_def)

section \<open>Claims about the chunker\<close>

text \<open>
  C1 (the code differs from the claim). For a text no longer than \<open>maxChunkSize\<close> the claim
  asks for one chunk whose content is the trimmed text. The early return of \<open>chunkText\<close>
  gives one chunk with \<open>chunkIndex\<close> 0 and \<open>totalChunks\<close> 1, but its content is the text
  as it came: for the text of a space and the letter a under the default configuration
  the content keeps the leading space, while \<open>trim\<close> removes it.
\<close>

theorem chunkText_short_text_untrimmed:
  "chunkText '' a'' \<lparr>maxChunkSize = None, overlap = None, separators = None\<rparr> =
     Some [\<lparr>content = '' a'',
            metadata = \<lparr>source = [], chunkIndex = 0, totalChunks = 1, chunk_section = None\<rparr>\<rparr>]
   \<and> trim '' a'' = ''a''
   \<and> chunkText [] \<lparr>maxChunkSize = None, overlap = None, separators = None\<rparr> =
     Some [\<lparr>content = [],
            metadata = \<lparr>source = [], chunkIndex = 0, totalChunks = 1, chunk_section = None\<rparr>\<rparr>]"
  by (simp add: chunkText_def the_maxChunkSize_def MAX_CHUNK_SIZE_def trim_def is_js_space_def)

text \<open>
  C2. Whenever \<open>chunkText\<close> returns a sequence of chunks, their \<open>chunkIndex\<close> values are
  0, 1, ... in order up to the length of the sequence, and every \<open>totalChunks\<close> is that
  length. This holds for every text and every configuration; the call does return when
  the text fits into \<open>maxChunkSize\<close> or \<open>maxChunkSize\<close> is at least 1.
\<close>

theorem chunkText_indices_contiguous:
  "(of_nat (length t) \<le> the_maxChunkSize cfg \<or> 1 \<le> the_maxChunkSize cfg \<longrightarrow>
      (\<exists>chunks. chunkText t cfg = Some chunks)) \<and>
   (\<forall>chunks. chunkText t cfg = Some chunks \<longrightarrow>
      map (\<lambda>c. chunkIndex (metadata c)) chunks = [0..<length chunks] \<and>
      (\<forall>c\<in>set chunks. totalChunks (metadata c) = length chunks))"
proof (intro conjI impI allI)
  assume "of_nat (length t) \<le> the_maxChunkSize cfg \<or> 1 \<le> the_maxChunkSize cfg"
  then show "\<exists>chunks. chunkText t cfg = Some chunks"
    by (rule chunkText_returns)
next
  fix chunks
  assume r: "chunkText t cfg = Some chunks"
  from chunkText_cases [OF r]
  show "map (\<lambda>c. chunkIndex (metadata c)) chunks = [0..<length chunks]"
  proof
    assume "chunks = [\<lparr>content = t, metadata = \<lparr>source = [], chunkIndex = 0, totalChunks = 1,
                                                   chunk_section = None\<rparr>\<rparr>]"
    then show ?thesis by simp
  next
    assume "\<exists>splits. chunks = map (chunk_at splits (the_overlap cfg)) [0..<length splits]"
    then obtain splits where
      c: "chunks = map (chunk_at splits (the_overlap cfg)) [0..<length splits]" ..
    show ?thesis
      unfolding c by (rule nth_equalityI) (simp_all add: chunk_at_meta)
  qed
  from chunkText_cases [OF r]
  show "\<forall>c\<in>set chunks. totalChunks (metadata c) = length chunks"
  proof
    assume "chunks = [\<lparr>content = t, metadata = \<lparr>source = [], chunkIndex = 0, totalChunks = 1,
                                                   chunk_section = None\<rparr>\<rparr>]"
    then show ?thesis by simp
  next
    assume "\<exists>splits. chunks = map (chunk_at splits (the_overlap cfg)) [0..<length splits]"
    then obtain splits where
      c: "chunks = map (chunk_at splits (the_overlap cfg)) [0..<length splits]" ..
    show ?thesis
      unfolding c by (auto simp: chunk_at_meta)
  qed
qed

theorem chunkText_indices_contiguous_witness:
  "\<exists>chunks. chunkText ''hello world. this is a test of it''
               \<lparr>maxChunkSize = Some 10, overlap = Some 3, separators = None\<rparr> = Some chunks \<and>
      map (\<lambda>c. chunkIndex (metadata c)) chunks = [0..<length chunks] \<and>
      (\<forall>c\<in>set chunks. totalChunks (metadata c) = length chunks)"
proof -
  let ?t = "''hello world. this is a test of it''"
  let ?cfg = "\<lparr>maxChunkSize = Some 10, overlap = Some 3, separators = None\<rparr>"
  note main = chunkText_indices_contiguous [of ?t ?cfg]
  have size: "of_nat (length ?t) \<le> the_maxChunkSize ?cfg \<or> 1 \<le> the_maxChunkSize ?cfg"
    by (simp add: the_maxChunkSize_def)
  from main [THEN conjunct1, THEN mp, OF size]
  obtain chunks where r: "chunkText ?t ?cfg = Some chunks" ..
  from main [THEN conjunct2, THEN spec, THEN mp, OF r] r
  show ?thesis by blast
qed

text \<open>
  C4. The text of 2500 letters A, with \<open>maxChunkSize\<close> 1000, \<open>overlap\<close> 200 and the default
  separators, none of which occurs in it: the raw segments are the windows of 1000, 1000
  and 500 letters, and \<open>chunkText\<close> returns three chunks, the first the first window, the
  second the last 200 letters of the first window, a space and the second window, the
  third the last 200 letters of the second window, a space and the last window of 500.
\<close>

theorem chunkText_2500_A:
  "recursiveSplit (replicate 2500 CHR ''A'') SEPARATORS 1000 =
     Some [replicate 1000 CHR ''A'', replicate 1000 CHR ''A'', replicate 500 CHR ''A''] \<and>
   slice_from (replicate 1000 CHR ''A'') (- 200) = replicate 200 CHR ''A'' \<and>
   chunkText (replicate 2500 CHR ''A'')
       \<lparr>maxChunkSize = Some 1000, overlap = Some 200, separators = Some SEPARATORS\<rparr> =
     Some [\<lparr>content = replicate 1000 CHR ''A'',
            metadata = \<lparr>source = [], chunkIndex = 0, totalChunks = 3, chunk_section = None\<rparr>\<rparr>,
           \<lparr>content = replicate 200 CHR ''A'' @ '' '' @ replicate 1000 CHR ''A'',
            metadata = \<lparr>source = [], chunkIndex = 1, totalChunks = 3, chunk_section = None\<rparr>\<rparr>,
           \<lparr>content = replicate 200 CHR ''A'' @ '' '' @ replicate 500 CHR ''A'',
            metadata = \<lparr>source = [], chunkIndex = 2, totalChunks = 3, chunk_section = None\<rparr>\<rparr>] \<and>
   length (replicate 1000 CHR ''A'') = 1000 \<and>
   length (replicate 200 CHR ''A'' @ '' '' @ replicate 1000 CHR ''A'') = 1201 \<and>
   length (replicate 200 CHR ''A'' @ '' '' @ replicate 500 CHR ''A'') = 701"
proof -
  let ?cfg = "\<lparr>maxChunkSize = Some 1000, overlap = Some 200, separators = Some SEPARATORS\<rparr>"
  let ?segs = "[replicate 1000 CHR ''A'', replicate 1000 CHR ''A'', replicate 500 CHR ''A'']"
  have ov: "slice_from (replicate 1000 CHR ''A'') (- 200) = replicate 200 CHR ''A''"
    by (simp add: slice_from_def clamp_index_def)
  have ti: "to_integer (- 200) = - 200"
    by (simp add: to_integer_def)
  have t0: "trim (replicate 1000 CHR ''A'') = replicate 1000 CHR ''A''"
    using trim_A [of 999] by simp
  have t1: "trim (replicate 200 CHR ''A'' @ '' '' @ replicate 1000 CHR ''A'') =
              replicate 200 CHR ''A'' @ '' '' @ replicate 1000 CHR ''A''"
    using trim_A_block [of 199 "'' ''" 999] by simp
  have t2: "trim (replicate 200 CHR ''A'' @ '' '' @ replicate 500 CHR ''A'') =
              replicate 200 CHR ''A'' @ '' '' @ replicate 500 CHR ''A''"
    using trim_A_block [of 199 "'' ''" 499] by simp
  have c0: "chunk_at ?segs 200 0 = \<lparr>content = replicate 1000 CHR ''A'',
      metadata = \<lparr>source = [], chunkIndex = 0, totalChunks = 3, chunk_section = None\<rparr>\<rparr>"
    by (simp add: chunk_at_def t0)
  have c1: "chunk_at ?segs 200 1 = \<lparr>content = replicate 200 CHR ''A'' @ '' '' @ replicate 1000 CHR ''A'',
      metadata = \<lparr>source = [], chunkIndex = 1, totalChunks = 3, chunk_section = None\<rparr>\<rparr>"
    using t1 by (simp add: chunk_at_def ti ov)
  have c2: "chunk_at ?segs 200 2 = \<lparr>content = replicate 200 CHR ''A'' @ '' '' @ replicate 500 CHR ''A'',
      metadata = \<lparr>source = [], chunkIndex = 2, totalChunks = 3, chunk_section = None\<rparr>\<rparr>"
    using t2 by (simp add: chunk_at_def ti ov)
  have idx: "[0..<length ?segs] = [0, 1, 2]"
    by (simp add: upt_rec)
  have long: "\<not> of_nat (length (replicate 2500 CHR ''A'')) \<le> the_maxChunkSize ?cfg"
    by (simp add: the_maxChunkSize_def)
  have segs: "recursiveSplit (replicate 2500 CHR ''A'') (the_separators ?cfg) (the_maxChunkSize ?cfg)
                = Some ?segs"
    by (simp add: the_separators_def the_maxChunkSize_def recursiveSplit_2500_A)
  have "chunkText (replicate 2500 CHR ''A'') ?cfg =
          Some [chunk_at ?segs 200 0, chunk_at ?segs 200 1, chunk_at ?segs 200 2]"
    unfolding chunkText_long [OF long segs] idx by (simp add: the_overlap_def)
  then show ?thesis
    unfolding c0 c1 c2 using ov recursiveSplit_2500_A by simp
qed

text \<open>
  C10 as stated fails: the sizes of a configuration are numbers and need not be integers.
  With \<open>maxChunkSize\<close> 1.5 the counter of \<open>forceSplit\<close> advances by 1.5 while \<open>slice\<close>
  truncates, so the text abc is cut into a and bc, and bc is longer than 1.5. With
  \<open>maxChunkSize\<close> 2 and \<open>overlap\<close> 0.5 the call \<open>slice(-0.5)\<close> gives the whole previous
  segment, so the second chunk of abcd has 5 characters, more than 2 + 0.5 + 1.
\<close>

theorem fractional_sizes_counterexample:
  "(1::rat) \<le> 3 / 2 \<and>
   recursiveSplit ''abc'' SEPARATORS (3 / 2) = Some [''a'', ''bc''] \<and>
   (3 / 2 :: rat) < of_nat (length ''bc'') \<and>
   (1::rat) \<le> 2 \<and> (0::rat) \<le> 1 / 2 \<and>
   map_option (map content)
     (chunkText ''abcd'' \<lparr>maxChunkSize = Some 2, overlap = Some (1 / 2), separators = None\<rparr>)
     = Some [''ab'', ''ab cd''] \<and>
   (2 + 1 / 2 + 1 :: rat) < of_nat (length ''ab cd'')"
proof -
  have a: "recursiveSplit ''abc'' SEPARATORS (3 / 2) = Some [''a'', ''bc'']"
    by code_simp
  have b: "map_option (map content)
     (chunkText ''abcd'' \<lparr>maxChunkSize = Some 2, overlap = Some (1 / 2), separators = None\<rparr>)
     = Some [''ab'', ''ab cd'']"
    by code_simp
  show ?thesis using a b by simp
qed

text \<open>
  C10, amended. For a configuration whose \<open>maxChunkSize\<close> is an integer at least 1 and
  whose \<open>overlap\<close> is an integer at least 0, and any separator list, \<open>recursiveSplit\<close>
  returns, and every segment it returns is at most \<open>maxChunkSize\<close> long; \<open>chunkText\<close>
  returns, every chunk is at most \<open>maxChunkSize + overlap + 1\<close> long, and the first chunk
  at most \<open>maxChunkSize\<close>.
\<close>

theorem chunk_lengths_bounded:
  assumes "the_maxChunkSize cfg = of_int k" and "1 \<le> k"
    and "the_overlap cfg = of_int v" and "0 \<le> v"
  shows "(\<exists>segs. recursiveSplit t seps (the_maxChunkSize cfg) = Some segs \<and>
            (\<forall>s\<in>set segs. int (length s) \<le> k)) \<and>
         (\<exists>chunks. chunkText t cfg = Some chunks \<and>
            (\<forall>c\<in>set chunks. int (length (content c)) \<le> k + v + 1) \<and>
            (\<forall>c\<in>set (take 1 chunks). int (length (content c)) \<le> k))"
proof
  have pos: "0 < k" using assms(2) by simp
  have le: "int n \<le> k" if "n \<le> nat k" for n
    using that pos by linarith
  show "\<exists>segs. recursiveSplit t seps (the_maxChunkSize cfg) = Some segs \<and>
            (\<forall>s\<in>set segs. int (length s) \<le> k)"
    using recursiveSplit_on_bounded [OF pos, of seps t] le
    by (auto simp: recursiveSplit_def assms(1))
  show "\<exists>chunks. chunkText t cfg = Some chunks \<and>
            (\<forall>c\<in>set chunks. int (length (content c)) \<le> k + v + 1) \<and>
            (\<forall>c\<in>set (take 1 chunks). int (length (content c)) \<le> k)"
  proof (cases "of_nat (length t) \<le> the_maxChunkSize cfg")
    case True
    then have "(of_int (int (length t)) :: rat) \<le> of_int k"
      by (simp add: assms(1))
    then have "int (length t) \<le> k"
      by (simp only: of_int_le_iff)
    then show ?thesis
      using True assms(4) by (simp add: chunkText_short)
  next
    case False
    from recursiveSplit_on_bounded [OF pos, of "the_separators cfg" t]
    obtain splits where
      s: "recursiveSplit t (the_separators cfg) (the_maxChunkSize cfg) = Some splits"
      and b: "\<forall>s\<in>set splits. length s \<le> nat k"
      by (auto simp: recursiveSplit_def assms(1))
    let ?chunks = "map (chunk_at splits (the_overlap cfg)) [0..<length splits]"
    have r: "chunkText t cfg = Some ?chunks"
      by (rule chunkText_long [OF False s])
    have "length (content (chunk_at splits (of_int v) i)) \<le> nat k + nat v + 1"
      if "i < length splits" for i
      using that b assms(4) by (rule chunk_at_length)
    then have "int (length (content (chunk_at splits (of_int v) i))) \<le> k + v + 1"
      if "i < length splits" for i
      using that pos assms(4) by fastforce
    then have all: "\<forall>c\<in>set ?chunks. int (length (content c)) \<le> k + v + 1"
      by (auto simp: assms(3))
    have first: "\<forall>c\<in>set (take 1 ?chunks). int (length (content c)) \<le> k"
    proof (cases splits)
      case Nil
      then show ?thesis by simp
    next
      case (Cons x xs)
      then have "take 1 ?chunks = [chunk_at splits (the_overlap cfg) 0]"
        by (simp add: upt_rec take_map)
      moreover have "0 < length splits" using Cons by simp
      ultimately show ?thesis
        using chunk_at_length_first [OF _ b, of "the_overlap cfg"] le by simp
    qed
    from r all first show ?thesis by blast
  qed
qed

theorem chunk_lengths_bounded_witness:
  "the_maxChunkSize \<lparr>maxChunkSize = Some 10, overlap = Some 3, separators = None\<rparr> = of_int 10 \<and>
   (1::int) \<le> 10 \<and>
   the_overlap \<lparr>maxChunkSize = Some 10, overlap = Some 3, separators = None\<rparr> = of_int 3 \<and>
   (0::int) \<le> 3 \<and>
   (\<exists>segs. recursiveSplit ''hello world. this is a test of it'' SEPARATORS 10 = Some segs \<and>
      (\<forall>s\<in>set segs. int (length s) \<le> 10)) \<and>
   (\<exists>chunks. chunkText ''hello world. this is a test of it''
                \<lparr>maxChunkSize = Some 10, overlap = Some 3, separators = None\<rparr> = Some chunks \<and>
      (\<forall>c\<in>set chunks. int (length (content c)) \<le> 14) \<and>
      (\<forall>c\<in>set (take 1 chunks). int (length (content c)) \<le> 10))"
proof -
  let ?cfg = "\<lparr>maxChunkSize = Some 10, overlap = Some 3, separators = None\<rparr>"
  have m: "the_maxChunkSize ?cfg = of_int 10" and o: "the_overlap ?cfg = of_int 3"
    by (simp_all add: the_maxChunkSize_def the_overlap_def)
  have h1: "(1::int) \<le> 10" and h2: "(0::int) \<le> 3"
    by simp_all
  have m': "the_maxChunkSize ?cfg = 10"
    by (simp add: the_maxChunkSize_def)
  from chunk_lengths_bounded [OF m h1 o h2, of "''hello world. this is a test of it''" SEPARATORS]
  have "(\<exists>segs. recursiveSplit ''hello world. this is a test of it'' SEPARATORS 10 = Some segs \<and>
          (\<forall>s\<in>set segs. int (length s) \<le> 10)) \<and>
        (\<exists>chunks. chunkText ''hello world. this is a test of it'' ?cfg = Some chunks \<and>
          (\<forall>c\<in>set chunks. int (length (content c)) \<le> 14) \<and>
          (\<forall>c\<in>set (take 1 chunks). int (length (content c)) \<le> 10))"
    unfolding m' by simp
  then show ?thesis
    by (rule conjI [OF m conjI [OF h1 conjI [OF o conjI [OF h2]]]])
qed

section \<open>The classifier\<close>

lemma startsWith_iff: "startsWith s p \<longleftrightarrow> (\<exists>v. s = p @ v)"
proof
  assume "startsWith s p"
  then have "s = p @ drop (length p) s"
    unfolding startsWith_def by (metis append_take_drop_id)
  then show "\<exists>v. s = p @ v" ..
next
  assume "\<exists>v. s = p @ v"
  then show "startsWith s p" by (auto simp: startsWith_def)
qed

lemma includes_str_iff: "includes_str s p \<longleftrightarrow> occurs_in p s"
proof (induction s)
  case Nil
  show ?case by (auto simp: occurs_in_def)
next
  case (Cons c cs)
  show ?case
  proof
    assume "includes_str (c # cs) p"
    then consider "startsWith (c # cs) p" | "includes_str cs p" by auto
    then show "occurs_in p (c # cs)"
    proof cases
      case 1
      then obtain v where "c # cs = [] @ p @ v"
        by (auto simp: startsWith_iff)
      then show ?thesis unfolding occurs_in_def by blast
    next
      case 2
      with Cons.IH obtain u v where "cs = u @ p @ v"
        by (auto simp: occurs_in_def)
      then have "c # cs = (c # u) @ p @ v" by simp
      then show ?thesis unfolding occurs_in_def by blast
    qed
  next
    assume "occurs_in p (c # cs)"
    then obtain u v where uv: "c # cs = u @ p @ v"
      by (auto simp: occurs_in_def)
    show "includes_str (c # cs) p"
    proof (cases u)
      case Nil
      with uv have "startsWith (c # cs) p" by (auto simp: startsWith_iff)
      then show ?thesis by simp
    next
      case (Cons a u')
      with uv have "cs = u' @ p @ v" by simp
      then have "occurs_in p cs" unfolding occurs_in_def by blast
      with Cons.IH show ?thesis by simp
    qed
  qed
qed

lemma framework_extractMetadata:
  "framework (extractMetadata page) =
     (if includes_str (toLowerCase (page_url page)) ''astro'' \<or>
         includes_str (toLowerCase (page_content page)) ''astro'' then ''astro''
      else if includes_str (toLowerCase (page_url page)) ''vue'' \<or>
              includes_str (toLowerCase (page_content page)) ''vue'' then ''vue''
      else if includes_str (toLowerCase (page_url page)) ''nunjucks'' then ''nunjucks''
      else ''core'')"
  by (simp add: extractMetadata_def Let_def)

text \<open>
  C7 as stated fails: the classifier lower-cases the url and the content before it looks
  for the substrings, so a url that contains ASTRO in capitals, and no astro, with an
  empty content is classified astro, where the rules read on the url as it is give core.
\<close>

theorem framework_capitals_counterexample:
  "framework (extractMetadata
      \<lparr>page_url = ''https://docs.example.com/ASTRO/intro'', page_title = ''Intro'',
       page_content = [], page_links = [],
       page_meta = \<lparr>description = [], headings = [], internalLinks = [],
                    externalLinks = [], scrapedAt = 0\<rparr>\<rparr>) = ''astro'' \<and>
   framework_by_rules ''https://docs.example.com/ASTRO/intro'' [] = ''core''"
proof
  show "framework (extractMetadata
      \<lparr>page_url = ''https://docs.example.com/ASTRO/intro'', page_title = ''Intro'',
       page_content = [], page_links = [],
       page_meta = \<lparr>description = [], headings = [], internalLinks = [],
                    externalLinks = [], scrapedAt = 0\<rparr>\<rparr>) = ''astro''"
    by code_simp
  show "framework_by_rules ''https://docs.example.com/ASTRO/intro'' [] = ''core''"
    unfolding framework_by_rules_def includes_str_iff [symmetric]
    by (simp add: startsWith_def)
qed

text \<open>
  C7, amended. For every page the classifier assigns the framework by the first matching
  rule in the fixed order, on the lower-cased url and the lower-cased content: astro if
  either contains astro, else vue if either contains vue, else nunjucks if the lower-cased
  url contains nunjucks, else core.
\<close>

theorem framework_first_matching_rule:
  "framework (extractMetadata page) =
     framework_by_rules (toLowerCase (page_url page)) (toLowerCase (page_content page))"
  unfolding framework_extractMetadata framework_by_rules_def includes_str_iff ..

section \<open>The assembler and the sink\<close>

lemma or_else_Some: "s \<noteq> [] \<Longrightarrow> or_else (Some s) d = s"
  by (simp add: or_else_def)

text \<open>The classifier computes the rules of the specification on the lower-cased url and
  content, and on the headings.\<close>

lemma extractMetadata_by_rules:
  "version (extractMetadata page) = version_by_rules (toLowerCase (page_url page))"
  "framework (extractMetadata page) =
     framework_by_rules (toLowerCase (page_url page)) (toLowerCase (page_content page))"
  "docType (extractMetadata page) = docType_by_rules (toLowerCase (page_url page))"
  "keywords_list (extractMetadata page) = keywords_by_rules (headings (page_meta page))"
  by (simp_all add: extractMetadata_def Let_def version_by_rules_def framework_by_rules_def
      docType_by_rules_def keywords_by_rules_def includes_str_iff)

lemma rules_nonempty:
  "version_by_rules u \<noteq> []" "framework_by_rules u c \<noteq> []"
  by (simp_all add: version_by_rules_def framework_by_rules_def)

lemma to_object_make_document:
  "obj_content (to_object (make_document page (extractMetadata page) chunk)) = content chunk"
  "obj_url (to_object (make_document page (extractMetadata page) chunk)) = page_url page"
  "obj_title (to_object (make_document page (extractMetadata page) chunk)) = page_title page"
  "obj_version (to_object (make_document page (extractMetadata page) chunk))
     = version_by_rules (toLowerCase (page_url page))"
  "obj_framework (to_object (make_document page (extractMetadata page) chunk))
     = framework_by_rules (toLowerCase (page_url page)) (toLowerCase (page_content page))"
  "obj_docType (to_object (make_document page (extractMetadata page) chunk))
     = docType_by_rules (toLowerCase (page_url page))"
  "obj_keywords (to_object (make_document page (extractMetadata page) chunk))
     = keywords_by_rules (headings (page_meta page))"
  by (simp_all add: to_object_def make_document_def extractMetadata_by_rules or_else_Some
      rules_nonempty)

text \<open>The documents of \<open>process_pages\<close> are the ones it started with and documents made
  from a chunk of one of the pages.\<close>

lemma process_pages_documents:
  assumes "process_pages cfg pages documents = Some docs"
  shows "\<forall>d\<in>set docs. d \<in> set documents \<or>
           (\<exists>page chunk. page \<in> set pages \<and> d = make_document page (extractMetadata page) chunk)"
  using assms
proof (induction pages arbitrary: documents)
  case Nil
  then show ?case by simp
next
  case (Cons page pages)
  from Cons.prems obtain chunks where
    c: "chunkText (page_content page) (config_or_empty cfg) = Some chunks"
    and r: "process_pages cfg pages (documents @ map (make_document page (extractMetadata page)) chunks)
              = Some docs"
    by (auto simp: Let_def split: option.splits)
  show ?case
  proof
    fix d assume "d \<in> set docs"
    with Cons.IH [OF r] consider
      "d \<in> set documents" | "d \<in> set (map (make_document page (extractMetadata page)) chunks)"
      | "\<exists>p chunk. p \<in> set pages \<and> d = make_document p (extractMetadata p) chunk"
      by auto
    then show "d \<in> set documents \<or>
           (\<exists>p chunk. p \<in> set (page # pages) \<and> d = make_document p (extractMetadata p) chunk)"
    proof cases
      case 1
      then show ?thesis by simp
    next
      case 2
      then obtain chunk where "d = make_document page (extractMetadata page) chunk" by auto
      then show ?thesis by auto
    next
      case 3
      then show ?thesis by auto
    qed
  qed
qed

lemma process_pages_returns:
  assumes "1 \<le> the_maxChunkSize (config_or_empty cfg)"
  shows "\<exists>docs. process_pages cfg pages documents = Some docs"
proof (induction pages arbitrary: documents)
  case Nil
  show ?case by simp
next
  case (Cons page pages)
  from chunkText_returns [of "page_content page" "config_or_empty cfg"] assms
  obtain chunks where "chunkText (page_content page) (config_or_empty cfg) = Some chunks"
    by blast
  then show ?case using Cons.IH by (simp add: Let_def)
qed

text \<open>
  C5 as stated fails: nothing between the pages and the sink looks at the content. A page
  with empty content becomes one document with empty content, and \<open>batchImport\<close> puts an
  object with empty content into the batch.
\<close>

theorem empty_content_reaches_sink_counterexample:
  "processScrapedPages
     [\<lparr>page_url = ''https://docs.example.com/guide/empty.html'', page_title = ''Empty'',
       page_content = [], page_links = [],
       page_meta = \<lparr>description = [], headings = [], internalLinks = [],
                    externalLinks = [], scrapedAt = 0\<rparr>\<rparr>] None =
     Some [\<lparr>doc_content = [], doc_title = ''Empty'',
            doc_url = ''https://docs.example.com/guide/empty.html'',
            doc_version = Some ''4.x'', doc_framework = Some ''core'',
            doc_docType = ''guide'', doc_keywords = Some [],
            doc_metadata = Some \<lparr>md_section = [], md_chunkIndex = 0, md_totalChunks = 1,
              md_page = \<lparr>description = [], headings = [], internalLinks = [],
                         externalLinks = [], scrapedAt = 0\<rparr>\<rparr>\<rparr>] \<and>
   batchImport True
     [\<lparr>doc_content = [], doc_title = ''Empty'',
       doc_url = ''https://docs.example.com/guide/empty.html'',
       doc_version = Some ''4.x'', doc_framework = Some ''core'',
       doc_docType = ''guide'', doc_keywords = Some [],
       doc_metadata = Some \<lparr>md_section = [], md_chunkIndex = 0, md_totalChunks = 1,
         md_page = \<lparr>description = [], headings = [], internalLinks = [],
                    externalLinks = [], scrapedAt = 0\<rparr>\<rparr>\<rparr>] =
     Inr [\<lparr>obj_content = [], obj_title = ''Empty'',
           obj_url = ''https://docs.example.com/guide/empty.html'',
           obj_version = ''4.x'', obj_framework = ''core'', obj_docType = ''guide'',
           obj_keywords = [], obj_section = []\<rparr>]"
  by code_simp

text \<open>
  C5, amended. For every batch of pages, every object that \<open>batchImport\<close> hands to the sink
  comes from a page of the batch and carries that page's url and title and the values of
  the classifier for it: the version by the version rule (default 4.x), the framework by
  the framework rules (default core), the document type by its rules (default guide), all
  on the lower-cased url and content, and as keywords the first ten non-empty headings,
  lower-cased. The objects are the documents in order with their content unchanged; the
  content is not validated. The documents are produced whenever \<open>maxChunkSize\<close> is at
  least 1.
\<close>

theorem sink_objects_populated:
  "(1 \<le> the_maxChunkSize (config_or_empty cfg) \<longrightarrow>
      (\<exists>docs. processScrapedPages pages cfg = Some docs)) \<and>
   (\<forall>docs objs.
      processScrapedPages pages cfg = Some docs \<and> batchImport True docs = Inr objs \<longrightarrow>
        map obj_content objs = map doc_content docs \<and>
        (\<forall>obj\<in>set objs. \<exists>page\<in>set pages.
           obj_url obj = page_url page \<and>
           obj_title obj = page_title page \<and>
           obj_version obj = version_by_rules (toLowerCase (page_url page)) \<and>
           obj_framework obj =
             framework_by_rules (toLowerCase (page_url page)) (toLowerCase (page_content page)) \<and>
           obj_docType obj = docType_by_rules (toLowerCase (page_url page)) \<and>
           obj_keywords obj = keywords_by_rules (headings (page_meta page))))"
proof (intro conjI impI allI)
  assume "1 \<le> the_maxChunkSize (config_or_empty cfg)"
  then show "\<exists>docs. processScrapedPages pages cfg = Some docs"
    unfolding processScrapedPages_def by (rule process_pages_returns)
next
  fix docs objs
  assume a: "processScrapedPages pages cfg = Some docs \<and> batchImport True docs = Inr objs"
  then have objs: "objs = map to_object docs"
    by (simp add: batchImport_def)
  show "map obj_content objs = map doc_content docs"
    unfolding objs by (simp add: to_object_def)
  show "\<forall>obj\<in>set objs. \<exists>page\<in>set pages.
           obj_url obj = page_url page \<and>
           obj_title obj = page_title page \<and>
           obj_version obj = version_by_rules (toLowerCase (page_url page)) \<and>
           obj_framework obj =
             framework_by_rules (toLowerCase (page_url page)) (toLowerCase (page_content page)) \<and>
           obj_docType obj = docType_by_rules (toLowerCase (page_url page)) \<and>
           obj_keywords obj = keywords_by_rules (headings (page_meta page))"
  proof
    fix obj assume "obj \<in> set objs"
    then obtain d where d: "d \<in> set docs" "obj = to_object d"
      unfolding objs by auto
    from a have "process_pages cfg pages [] = Some docs"
      by (simp add: processScrapedPages_def)
    from process_pages_documents [OF this] d(1)
    obtain page chunk where
      page: "page \<in> set pages" and "d = make_document page (extractMetadata page) chunk"
      by auto
    then have obj: "obj = to_object (make_document page (extractMetadata page) chunk)"
      using d(2) by simp
    have "obj_url obj = page_url page \<and>
           obj_title obj = page_title page \<and>
           obj_version obj = version_by_rules (toLowerCase (page_url page)) \<and>
           obj_framework obj =
             framework_by_rules (toLowerCase (page_url page)) (toLowerCase (page_content page)) \<and>
           obj_docType obj = docType_by_rules (toLowerCase (page_url page)) \<and>
           obj_keywords obj = keywords_by_rules (headings (page_meta page))"
      unfolding obj by (simp only: to_object_make_document)
    with page show "\<exists>page\<in>set pages.
           obj_url obj = page_url page \<and>
           obj_title obj = page_title page \<and>
           obj_version obj = version_by_rules (toLowerCase (page_url page)) \<and>
           obj_framework obj =
             framework_by_rules (toLowerCase (page_url page)) (toLowerCase (page_content page)) \<and>
           obj_docType obj = docType_by_rules (toLowerCase (page_url page)) \<and>
           obj_keywords obj = keywords_by_rules (headings (page_meta page))"
      by blast
  qed
qed

theorem sink_objects_populated_witness:
  "\<exists>docs objs.
     processScrapedPages
       [\<lparr>page_url = ''https://docs.example.com/v3/reference/astro.html'', page_title = ''Astro'',
         page_content = ''Install the Astro integration.'', page_links = [],
         page_meta = \<lparr>description = [], headings = [''Astro'', '''', ''Install''],
                      internalLinks = [], externalLinks = [], scrapedAt = 0\<rparr>\<rparr>] None = Some docs \<and>
     batchImport True docs = Inr objs \<and>
     map obj_content objs = map doc_content docs \<and>
     (\<forall>obj\<in>set objs.
        obj_url obj = ''https://docs.example.com/v3/reference/astro.html'' \<and>
        obj_title obj = ''Astro'' \<and>
        obj_version obj = ''3.x'' \<and>
        obj_framework obj = ''astro'' \<and>
        obj_docType obj = ''reference'' \<and>
        obj_keywords obj = [''astro'', ''install''])"
proof -
  let ?page = "\<lparr>page_url = ''https://docs.example.com/v3/reference/astro.html'',
         page_title = ''Astro'',
         page_content = ''Install the Astro integration.'', page_links = [],
         page_meta = \<lparr>description = [], headings = [''Astro'', '''', ''Install''],
                      internalLinks = [], externalLinks = [], scrapedAt = 0\<rparr>\<rparr>"
  note main = sink_objects_populated [of None "[?page]"]
  have "1 \<le> the_maxChunkSize (config_or_empty None)"
    by (simp add: config_or_empty_def the_maxChunkSize_def MAX_CHUNK_SIZE_def)
  from main [THEN conjunct1, THEN mp, OF this]
  obtain docs where docs: "processScrapedPages [?page] None = Some docs" ..
  have imp: "batchImport True docs = Inr (map to_object docs)"
    by (simp add: batchImport_def)
  note props = main [THEN conjunct2, THEN spec, THEN spec, THEN mp, OF conjI [OF docs imp]]
  have v: "version_by_rules (toLowerCase (page_url ?page)) = ''3.x''"
    and f: "framework_by_rules (toLowerCase (page_url ?page)) (toLowerCase (page_content ?page))
              = ''astro''"
    and t: "docType_by_rules (toLowerCase (page_url ?page)) = ''reference''"
    and k: "keywords_by_rules (headings (page_meta ?page)) = [''astro'', ''install'']"
    unfolding version_by_rules_def framework_by_rules_def docType_by_rules_def
      keywords_by_rules_def includes_str_iff [symmetric]
    by code_simp+
  from props have "\<forall>obj\<in>set (map to_object docs).
        obj_url obj = ''https://docs.example.com/v3/reference/astro.html'' \<and>
        obj_title obj = ''Astro'' \<and>
        obj_version obj = ''3.x'' \<and>
        obj_framework obj = ''astro'' \<and>
        obj_docType obj = ''reference'' \<and>
        obj_keywords obj = [''astro'', ''install'']"
    using v f t k by auto
  with props docs imp show ?thesis by blast
qed

section \<open>The urls of the pages made from an API specification\<close>

lemma HTTP_METHODS_no_hyphen: "m \<in> set HTTP_METHODS \<Longrightarrow> CHR ''-'' \<notin> set m"
  by (auto simp: HTTP_METHODS_def)

lemma replace_slashes_inj:
  assumes "CHR ''-'' \<notin> set p" "CHR ''-'' \<notin> set q" "replace_slashes p = replace_slashes q"
  shows "p = q"
  using assms
proof (induction p arbitrary: q)
  case Nil
  then show ?case by (simp add: replace_slashes_def)
next
  case (Cons a p)
  from Cons.prems(3) obtain b q' where q: "q = b # q'"
    by (cases q) (auto simp: replace_slashes_def)
  from Cons.prems q have "a = b"
    by (auto simp: replace_slashes_def split: if_splits)
  moreover have "p = q'"
    using Cons.prems q by (intro Cons.IH) (auto simp: replace_slashes_def)
  ultimately show ?case using q by simp
qed

lemma append_separator_eq_iff:
  assumes "x \<notin> set xs" "x \<notin> set xs'"
  shows "xs @ x # ys = xs' @ x # ys' \<longleftrightarrow> xs = xs' \<and> ys = ys'"
  using assms
proof (induction xs arbitrary: xs')
  case Nil
  then show ?case by (cases xs') auto
next
  case (Cons a xs)
  then show ?case by (cases xs') auto
qed

lemma createOperationPage_url_eq_iff:
  assumes "CHR ''-'' \<notin> set m1" "CHR ''-'' \<notin> set m2"
  shows "createOperationPage_url p1 m1 src = createOperationPage_url p2 m2 src \<longleftrightarrow>
           m1 = m2 \<and> replace_slashes p1 = replace_slashes p2"
proof -
  have "createOperationPage_url p1 m1 src = createOperationPage_url p2 m2 src \<longleftrightarrow>
          m1 @ CHR ''-'' # replace_slashes p1 = m2 @ CHR ''-'' # replace_slashes p2"
    by (simp add: createOperationPage_url_def)
  also have "\<dots> \<longleftrightarrow> m1 = m2 \<and> replace_slashes p1 = replace_slashes p2"
    using assms by (rule append_separator_eq_iff)
  finally show ?thesis .
qed

text \<open>
  C8 as stated fails for operations: the fragment replaces every slash of the path by a
  hyphen, so two paths that differ only in a slash against a hyphen give one url. A
  specification with GET on the two paths /users/list and /users-list gets two pages with
  the same url.
\<close>

theorem operation_urls_collide_counterexample:
  "createOperationPage_url ''/users/list'' ''get'' ''openapi.json'' =
     createOperationPage_url ''/users-list'' ''get'' ''openapi.json'' \<and>
   processOpenAPISpec_urls
     \<lparr>spec_info = False,
      spec_paths = Some [(''/users/list'', [''get'']), (''/users-list'', [''get''])],
      spec_schemas = None\<rparr> ''openapi.json'' =
     [''openapi.json#get--users-list'', ''openapi.json#get--users-list'']"
  by (simp add: createOperationPage_url_def replace_slashes_def processOpenAPISpec_urls_def
      operation_urls_def HTTP_METHODS_def)

text \<open>
  C8, amended. The url of a synthetic page is a function of the source and the unit. Two
  schema names give the same url only if they are equal. Two operations with HTTP methods
  give the same url exactly when the methods are equal and the paths are equal after every
  slash is replaced by a hyphen; so operations whose paths contain no hyphen have pairwise
  distinct urls.
\<close>

theorem synthetic_urls_distinct:
  "(createSchemaPage_url n1 src = createSchemaPage_url n2 src \<longleftrightarrow> n1 = n2) \<and>
   (m1 \<in> set HTTP_METHODS \<and> m2 \<in> set HTTP_METHODS \<longrightarrow>
      (createOperationPage_url p1 m1 src = createOperationPage_url p2 m2 src \<longleftrightarrow>
         m1 = m2 \<and> replace_slashes p1 = replace_slashes p2)) \<and>
   (m1 \<in> set HTTP_METHODS \<and> m2 \<in> set HTTP_METHODS \<and>
    CHR ''-'' \<notin> set p1 \<and> CHR ''-'' \<notin> set p2 \<longrightarrow>
      (createOperationPage_url p1 m1 src = createOperationPage_url p2 m2 src \<longleftrightarrow>
         m1 = m2 \<and> p1 = p2))"
proof (intro conjI impI)
  show "createSchemaPage_url n1 src = createSchemaPage_url n2 src \<longleftrightarrow> n1 = n2"
    by (simp add: createSchemaPage_url_def)
next
  assume "m1 \<in> set HTTP_METHODS \<and> m2 \<in> set HTTP_METHODS"
  then have "CHR ''-'' \<notin> set m1" "CHR ''-'' \<notin> set m2"
    by (simp_all add: HTTP_METHODS_no_hyphen)
  then show "createOperationPage_url p1 m1 src = createOperationPage_url p2 m2 src \<longleftrightarrow>
         m1 = m2 \<and> replace_slashes p1 = replace_slashes p2"
    by (rule createOperationPage_url_eq_iff)
next
  assume a: "m1 \<in> set HTTP_METHODS \<and> m2 \<in> set HTTP_METHODS \<and>
    CHR ''-'' \<notin> set p1 \<and> CHR ''-'' \<notin> set p2"
  then have "CHR ''-'' \<notin> set m1" "CHR ''-'' \<notin> set m2"
    by (simp_all add: HTTP_METHODS_no_hyphen)
  then have "createOperationPage_url p1 m1 src = createOperationPage_url p2 m2 src \<longleftrightarrow>
         m1 = m2 \<and> replace_slashes p1 = replace_slashes p2"
    by (rule createOperationPage_url_eq_iff)
  also have "\<dots> \<longleftrightarrow> m1 = m2 \<and> p1 = p2"
    using a replace_slashes_inj [of p1 p2] by auto
  finally show "createOperationPage_url p1 m1 src = createOperationPage_url p2 m2 src \<longleftrightarrow>
         m1 = m2 \<and> p1 = p2" .
qed

theorem synthetic_urls_distinct_witness:
  "''get'' \<in> set HTTP_METHODS \<and> ''post'' \<in> set HTTP_METHODS \<and>
   CHR ''-'' \<notin> set ''/pets/{id}'' \<and> CHR ''-'' \<notin> set ''/pets'' \<and>
   createOperationPage_url ''/pets/{id}'' ''get'' ''openapi.json'' \<noteq>
     createOperationPage_url ''/pets'' ''get'' ''openapi.json'' \<and>
   createOperationPage_url ''/pets'' ''get'' ''openapi.json'' \<noteq>
     createOperationPage_url ''/pets'' ''post'' ''openapi.json'' \<and>
   createSchemaPage_url ''Pet'' ''openapi.json'' \<noteq> createSchemaPage_url ''Pets'' ''openapi.json''"
proof -
  have g: "''get'' \<in> set HTTP_METHODS" and p: "''post'' \<in> set HTTP_METHODS"
    by (simp_all add: HTTP_METHODS_def)
  have h1: "CHR ''-'' \<notin> set ''/pets/{id}''" and h2: "CHR ''-'' \<notin> set ''/pets''"
    by simp_all
  have a: "createOperationPage_url ''/pets/{id}'' ''get'' ''openapi.json'' \<noteq>
     createOperationPage_url ''/pets'' ''get'' ''openapi.json''"
    using synthetic_urls_distinct [where ?m1.0 = "''get''" and ?m2.0 = "''get''"
          and ?p1.0 = "''/pets/{id}''" and ?p2.0 = "''/pets''" and src = "''openapi.json''",
        THEN conjunct2, THEN conjunct2, THEN mp, OF conjI [OF g conjI [OF g conjI [OF h1 h2]]]]
    by simp
  have b: "createOperationPage_url ''/pets'' ''get'' ''openapi.json'' \<noteq>
     createOperationPage_url ''/pets'' ''post'' ''openapi.json''"
    using synthetic_urls_distinct [where ?m1.0 = "''get''" and ?m2.0 = "''post''"
          and ?p1.0 = "''/pets''" and ?p2.0 = "''/pets''" and src = "''openapi.json''",
        THEN conjunct2, THEN conjunct1, THEN mp, OF conjI [OF g p]]
    by simp
  have c: "createSchemaPage_url ''Pet'' ''openapi.json'' \<noteq> createSchemaPage_url ''Pets'' ''openapi.json''"
    using synthetic_urls_distinct [where ?n1.0 = "''Pet''" and ?n2.0 = "''Pets''"
          and src = "''openapi.json''", THEN conjunct1]
    by simp
  show ?thesis
    by (rule conjI [OF g conjI [OF p conjI [OF h1 conjI [OF h2 conjI [OF a conjI [OF b c]]]]]])
qed

section \<open>The scraper\<close>

lemma scrapePage_Throws: "goto env url = Throws \<Longrightarrow> scrapePage env st url = (None, st)"
  by (simp add: scrapePage_def)

lemma extract_content_no_match:
  "\<forall>selector\<in>set selectors. query selector = None \<Longrightarrow> extract_content td query selectors = []"
  by (induction selectors) simp_all

lemma scrapePage_Loaded:
  assumes "goto env url = Loaded d"
  shows "\<exists>p. scrapePage env st url = (Some p, st\<lparr>visited := insert url (visited st)\<rparr>) \<and>
           page_url p = url \<and>
           page_content p = extract_content (turndown env) (dom_query d) contentSelectors"
  using assms by (simp add: scrapePage_def Let_def)

lemma scrape_loop_urls:
  "map page_url (results (scrape_loop env urls st)) =
     map page_url (results st) @ filter (\<lambda>u. goto env u \<noteq> Throws) urls"
proof (induction urls arbitrary: st)
  case Nil
  show ?case by simp
next
  case (Cons url urls)
  show ?case
  proof (cases "goto env url")
    case Throws
    then show ?thesis
      using Cons.IH [of st] by (simp add: scrapePage_Throws)
  next
    case (Loaded d)
    from scrapePage_Loaded [OF Loaded, of st] obtain p where
      p: "scrapePage env st url = (Some p, st\<lparr>visited := insert url (visited st)\<rparr>)"
         "page_url p = url"
      by blast
    show ?thesis
      using Cons.IH [of "st\<lparr>visited := insert url (visited st), results := results st @ [p]\<rparr>"]
        p Loaded
      by simp
  qed
qed

text \<open>\<open>scrape\<close> ends with an error exactly when the sitemap request is rejected, and then
  the scraper is unchanged.\<close>

lemma scrape_error_iff:
  "fst (scrape env st) = Inl e \<longleftrightarrow> fetch env (sitemap_location (config st)) = Rejected"
  by (cases e) (auto simp: scrape_def fetchSitemap_def Let_def split: fetch_result.splits)

lemma scrape_rejected:
  "fetch env (sitemap_location (config st)) = Rejected \<Longrightarrow>
     scrape env st = (Inl SitemapFetchFailed, st)"
  by (simp add: scrape_def fetchSitemap_def)

text \<open>
  C3 (the code differs from the claim). \<open>shouldScrape\<close> looks a url up in the visited
  set while the sitemap list is filtered, but a url enters the set only inside
  \<open>scrapePage\<close>, after its page was fetched, and the loop of \<open>scrape\<close> does not look at
  the set again. A sitemap that lists one location twice therefore gives two pages with
  the same url in the results of one run.
\<close>

theorem scrape_duplicate_location:
  "map_sum id (map page_url)
     (fst (scrape (example_env (Response 200 sitemap_twice) (\<lambda>url. Loaded example_document))
        (PlaywrightScraper example_config))) =
   Inr [''https://docs.apostrophecms.org/guide/a.html'',
        ''https://docs.apostrophecms.org/guide/a.html'']"
  unfolding example_env_def example_config_def example_document_def sitemap_twice_def
  by code_simp

text \<open>
  C6 (the code differs from the claim). A rejected sitemap request does end the run with
  an error before any page is fetched (\<open>scrape_rejected\<close>). A response that indicates
  failure does not: \<open>fetchSitemap\<close> never looks at the status, so for a 404 response whose
  body holds no location the run completes normally with no pages.
\<close>

theorem scrape_sitemap_http_failure:
  "fst (scrape
      (example_env (Response 404 ''<html><body>Not Found</body></html>'')
         (\<lambda>url. Loaded example_document))
      (PlaywrightScraper example_config)) = Inr []"
  unfolding example_env_def example_config_def example_document_def
  by code_simp

text \<open>
  C9 as stated fails for a page without a content region: none of the content selectors
  matching throws nothing, so \<open>scrapePage\<close> returns a page with empty content, not \<open>null\<close>,
  and the run appends it to the results.
\<close>

theorem page_without_region_counterexample:
  "scrapePage (example_env (Response 200 []) example_navigate)
     (PlaywrightScraper example_config) ''https://docs.apostrophecms.org/guide/bare.html'' =
     (Some \<lparr>page_url = ''https://docs.apostrophecms.org/guide/bare.html'',
            page_title = ''Guide'', page_content = [], page_links = [],
            page_meta = \<lparr>description = [], headings = [''Guide''], internalLinks = [],
                         externalLinks = [], scrapedAt = 0\<rparr>\<rparr>,
      \<lparr>config = example_config,
       visited = {''https://docs.apostrophecms.org/guide/bare.html''}, results = []\<rparr>) \<and>
   map_sum id (map page_content)
     (fst (scrape
        (example_env
           (Response 200 ''<loc>https://docs.apostrophecms.org/guide/bare.html</loc>'')
           example_navigate)
        (PlaywrightScraper example_config))) = Inr [[]]"
proof
  show "scrapePage (example_env (Response 200 []) example_navigate)
     (PlaywrightScraper example_config) ''https://docs.apostrophecms.org/guide/bare.html'' =
     (Some \<lparr>page_url = ''https://docs.apostrophecms.org/guide/bare.html'',
            page_title = ''Guide'', page_content = [], page_links = [],
            page_meta = \<lparr>description = [], headings = [''Guide''], internalLinks = [],
                         externalLinks = [], scrapedAt = 0\<rparr>\<rparr>,
      \<lparr>config = example_config,
       visited = {''https://docs.apostrophecms.org/guide/bare.html''}, results = []\<rparr>)"
    by (simp add: scrapePage_def example_env_def example_navigate_def example_document_def
        PlaywrightScraper_def contentSelectors_def)
  show "map_sum id (map page_content)
     (fst (scrape
        (example_env
           (Response 200 ''<loc>https://docs.apostrophecms.org/guide/bare.html</loc>'')
           example_navigate)
        (PlaywrightScraper example_config))) = Inr [[]]"
    unfolding example_env_def example_config_def example_document_def example_navigate_def
    by code_simp
qed

lemma scrapePage_no_region:
  assumes "goto env url = Loaded d"
    and "\<forall>selector\<in>set contentSelectors. dom_query d selector = None"
  shows "\<exists>p. scrapePage env st url = (Some p, st\<lparr>visited := insert url (visited st)\<rparr>) \<and>
           page_url p = url \<and> page_content p = []"
  using scrapePage_Loaded [OF assms(1), of st] extract_content_no_match [OF assms(2)]
  by auto

text \<open>
  C9, amended. For every url whose fetch throws (navigation failure, timeout, any error
  inside \<open>scrapePage\<close>), \<open>scrapePage\<close> returns \<open>null\<close> and leaves the scraper as it was, the url
  contributes no page, and the run goes on with the remaining urls: the urls of the pages
  appended by the loop are exactly the urls whose fetch did not throw, in order.
\<close>

theorem failed_pages_are_skipped:
  "(goto env url = Throws \<longrightarrow>
      scrapePage env st url = (None, st) \<and>
      scrape_loop env (url # urls) st = scrape_loop env urls st) \<and>
   map page_url (results (scrape_loop env urls st)) =
     map page_url (results st) @ filter (\<lambda>u. goto env u \<noteq> Throws) urls"
proof (intro conjI impI)
  assume "goto env url = Throws"
  then show "scrapePage env st url = (None, st)"
    by (rule scrapePage_Throws)
  then show "scrape_loop env (url # urls) st = scrape_loop env urls st"
    by simp
next
  show "map page_url (results (scrape_loop env urls st)) =
     map page_url (results st) @ filter (\<lambda>u. goto env u \<noteq> Throws) urls"
    by (rule scrape_loop_urls)
qed

theorem failed_pages_are_skipped_witness:
  "goto (example_env (Response 200 []) example_navigate)
      ''https://docs.apostrophecms.org/guide/broken.html'' = Throws \<and>
   scrapePage (example_env (Response 200 []) example_navigate)
      (PlaywrightScraper example_config) ''https://docs.apostrophecms.org/guide/broken.html''
     = (None, PlaywrightScraper example_config) \<and>
   scrape_loop (example_env (Response 200 []) example_navigate)
      [''https://docs.apostrophecms.org/guide/broken.html'',
       ''https://docs.apostrophecms.org/guide/a.html'']
      (PlaywrightScraper example_config)
     = scrape_loop (example_env (Response 200 []) example_navigate)
         [''https://docs.apostrophecms.org/guide/a.html''] (PlaywrightScraper example_config) \<and>
   map page_url (results (scrape_loop (example_env (Response 200 []) example_navigate)
      [''https://docs.apostrophecms.org/guide/broken.html'',
       ''https://docs.apostrophecms.org/guide/a.html'']
      (PlaywrightScraper example_config)))
     = [''https://docs.apostrophecms.org/guide/a.html'']"
proof -
  let ?env = "example_env (Response 200 []) example_navigate"
  let ?st = "PlaywrightScraper example_config"
  let ?broken = "''https://docs.apostrophecms.org/guide/broken.html''"
  let ?a = "''https://docs.apostrophecms.org/guide/a.html''"
  have thr: "goto ?env ?broken = Throws"
    by (simp add: example_env_def example_navigate_def)
  note skip = failed_pages_are_skipped [of ?env ?broken ?st "[?a]", THEN conjunct1, THEN mp, OF thr]
  have flt: "filter (\<lambda>u. goto ?env u \<noteq> Throws) [?broken, ?a] = [?a]"
    by (simp add: example_env_def example_navigate_def)
  have urls: "map page_url (results (scrape_loop ?env [?broken, ?a] ?st)) = [?a]"
    using failed_pages_are_skipped [of ?env ?broken ?st "[?broken, ?a]", THEN conjunct2]
    unfolding flt by (simp add: PlaywrightScraper_def)
  show ?thesis
    by (rule conjI [OF thr conjI [OF skip [THEN conjunct1] conjI [OF skip [THEN conjunct2] urls]]])
qed

end
